theory Spec2Isabelle
  imports Main "HOL-Library.AList" "HOL-Library.Extended_Nat" "HOL-Library.Word"
begin

unbundle bit_operations_syntax

section \<open>Python values used by intent.py\<close>

text \<open>
  Datapath ids and port numbers are Python integers. A dictionary whose iteration order
  the code relies on is an association list with distinct keys in insertion order
  (the order of \<open>dict\<close> since Python 3.7): \<open>d[k] = v\<close> is \<open>AList.update k v d\<close>
  (an existing key keeps its place, a new key goes to the end), \<open>d[k]\<close> is
  \<open>map_of d k\<close> with \<open>None\<close> for the KeyError. A dictionary that is only looked up
  is a map. Distances are \<open>float('inf')\<close> or an integer count: \<open>enat\<close>, where
  \<open>\<infinity> + 1 = \<infinity>\<close> and only the numbers are below \<open>\<infinity>\<close>, as for the float.
  An exception is a value of \<open>error\<close>; a method that raises after it has changed
  \<open>self\<close> returns the error together with the state it has reached.
\<close>

datatype error = ValueError | KeyError | IndexError | AttributeError

text \<open>An edge is the dictionary \<open>{'src': .., 'dst': .., 'port': ..}\<close>.\<close>

record edge =
  src :: int
  dst :: int
  port :: int

type_synonym dist_dict = "(int \<times> enat) list"
type_synonym prev_dict = "(int \<times> (int \<times> int) option) list"

section \<open>dijkstra\<close>

text \<open>
  \<open>for vertex in vertices: dist[vertex] = inf; prev[vertex] = None;
  unvisited.append(vertex)\<close>
\<close>

fun init_vertices ::
  "int list \<Rightarrow> dist_dict \<times> prev_dict \<times> int list \<Rightarrow> dist_dict \<times> prev_dict \<times> int list" where
  "init_vertices [] acc = acc"
| "init_vertices (vertex # vertices) (dists, prev, unvisited) =
     init_vertices vertices
       (AList.update vertex \<infinity> dists, AList.update vertex None prev, unvisited @ [vertex])"

text \<open>
  \<open>min(available, key=available.get)\<close>: the keys are read in the dictionary's order,
  the current best is replaced only by a strictly smaller value, so the first key of
  least value is returned; on an empty dictionary \<open>min\<close> raises ValueError.
\<close>

fun min_from :: "int \<times> enat \<Rightarrow> (int \<times> enat) list \<Rightarrow> int \<times> enat" where
  "min_from best [] = best"
| "min_from best (kv # kvs) = min_from (if snd kv < snd best then kv else best) kvs"

fun min_key :: "(int \<times> enat) list \<Rightarrow> error + int" where
  "min_key [] = Inl ValueError"
| "min_key (kv # kvs) = Inr (fst (min_from kv kvs))"

text \<open>
  The body of \<open>for v in neighbors\<close>: \<open>dist[u]\<close> and \<open>dist[v['dst']]\<close> raise KeyError
  on a key that is not in \<open>dist\<close>.
\<close>

fun relax :: "int \<Rightarrow> edge list \<Rightarrow> dist_dict \<Rightarrow> prev_dict \<Rightarrow> error + (dist_dict \<times> prev_dict)" where
  "relax u [] dists prev = Inr (dists, prev)"
| "relax u (v # neighbors) dists prev =
     (case map_of dists u of
        None \<Rightarrow> Inl KeyError
      | Some du \<Rightarrow>
          (let alt = du + 1 in
           case map_of dists (dst v) of
             None \<Rightarrow> Inl KeyError
           | Some dv \<Rightarrow>
               if alt < dv
               then relax u neighbors (AList.update (dst v) alt dists)
                      (AList.update (dst v) (Some (u, port v)) prev)
               else relax u neighbors dists prev))"

text \<open>
  \<open>while unvisited:\<close> with \<open>available\<close> the entries of \<open>dist\<close> whose key is
  \<open>in unvisited\<close>, \<open>unvisited.remove(u)\<close> deleting the first occurrence of \<open>u\<close>
  and \<open>neighbors\<close> the edges leaving \<open>u\<close>. Each round shortens \<open>unvisited\<close>,
  since the key \<open>min\<close> returns is one of \<open>available\<close>.
\<close>

function visit ::
  "edge list \<Rightarrow> dist_dict \<Rightarrow> prev_dict \<Rightarrow> int list \<Rightarrow> error + (dist_dict \<times> prev_dict)" where
  "visit edges dists prev unvisited =
     (if unvisited = [] then Inr (dists, prev)
      else
        (case min_key (filter (\<lambda>(k, v). k \<in> set unvisited) dists) of
           Inl e \<Rightarrow> Inl e
         | Inr u \<Rightarrow>
             (case relax u (filter (\<lambda>x. src x = u) edges) dists prev of
                Inl e \<Rightarrow> Inl e
              | Inr (dists', prev') \<Rightarrow> visit edges dists' prev' (remove1 u unvisited))))"
  by pat_completeness auto
termination
proof (relation "measure (\<lambda>(edges, dists, prev, unvisited). length unvisited)")
  show "wf (measure (\<lambda>(edges, dists, prev, unvisited). length unvisited))" by simp
next
  fix edges :: "edge list" and dists :: dist_dict and prev :: prev_dict
    and unvisited :: "int list" and u x y z
  assume ne: "unvisited \<noteq> []"
    and m: "min_key (filter (\<lambda>(k, v). k \<in> set unvisited) dists) = Inr u"
  have mem: "min_from best kvs \<in> set (best # kvs)" for best kvs
    by (induction kvs arbitrary: best) auto
  let ?av = "filter (\<lambda>(k, v). k \<in> set unvisited) dists"
  from m obtain kv rest where av: "?av = kv # rest" by (cases ?av) auto
  with m have "u = fst (min_from kv rest)" by simp
  with mem [of kv rest] av have "u \<in> fst ` set ?av" by (metis imageI)
  then have "u \<in> set unvisited" by auto
  then have "length (remove1 u unvisited) < length unvisited"
    by (simp add: length_remove1) (cases unvisited; simp)
  then show "((edges, y, z, remove1 u unvisited), (edges, dists, prev, unvisited))
      \<in> measure (\<lambda>(edges, dists, prev, unvisited). length unvisited)"
    by simp
qed

definition dijkstra :: "int list \<Rightarrow> edge list \<Rightarrow> int \<Rightarrow> error + (dist_dict \<times> prev_dict)" where
  "dijkstra vertices edges source =
     (if source \<notin> set vertices then Inl ValueError
      else
        (case init_vertices vertices ([], [], []) of
           (dists, prev, unvisited) \<Rightarrow>
             visit edges (AList.update source 0 dists) prev unvisited))"

section \<open>The topology and the OpenFlow messages\<close>

text \<open>
  A datapath is known to the code by its \<open>id\<close> and by the port numbers that are the
  keys of \<open>datapath.ports\<close>, in the dictionary's order. A switch of the topology holds
  its datapath in \<open>dp\<close>; a link holds two ports, each with \<open>dpid\<close> and \<open>port_no\<close>.
\<close>

record datapath =
  dp_id :: int
  ports :: "int list"

record switch =
  dp :: datapath

record link_port =
  dpid :: int
  port_no :: int

record link =
  link_src :: link_port
  link_dst :: link_port

record topology =
  switches :: "switch list"
  links :: "link list"

text \<open>
  Modelled from the spec: \<open>get_switch\<close> and \<open>get_link\<close> of \<open>ryu.topology.api\<close> are
  not in the source file. They are the synchronous topology queries \<open>listSwitches\<close>
  and \<open>listLinks\<close> on the snapshot: \<open>get_switch(self, None)\<close> lists every switch,
  \<open>get_switch(self, dpid)\<close> the switches with that datapath id (none when the id is
  unknown), \<open>get_link(self, None)\<close> every link.
\<close>

definition get_switch :: "topology \<Rightarrow> int option \<Rightarrow> switch list" where
  "get_switch topo d =
     (case d of
        None \<Rightarrow> switches topo
      | Some i \<Rightarrow> filter (\<lambda>sw. dp_id (dp sw) = i) (switches topo))"

definition get_link :: "topology \<Rightarrow> link list" where
  "get_link topo = links topo"

text \<open>
  The keyword arguments of \<open>OFPMatch\<close> are a dictionary from field names to integers
  or strings; the match object built from them is that dictionary.
\<close>

datatype mval = IntV int | StrV string

type_synonym match_dict = "string \<rightharpoonup> mval"

datatype action = OFPActionOutput int

datatype command = OFPFC_ADD | OFPFC_DELETE | OFPFC_DELETE_STRICT

text \<open>
  Modelled from the spec: the message classes \<open>OFPFlowMod\<close> and \<open>OFPPacketOut\<close> of
  the OpenFlow 1.0 parser are not in the source file. A flow mod is the record of the
  arguments the code passes (\<open>installRule\<close> and \<open>deleteRule\<close> of the gateway), with
  the parser's defaults 0 for the timeouts and flags and the empty list for absent
  actions; a packet out is the record of its arguments (\<open>sendPacketOut\<close>).
\<close>

record flow_mod =
  mod_datapath :: datapath
  mod_match :: match_dict
  cookie :: int
  command :: command
  idle_timeout :: int
  hard_timeout :: int
  priority :: int
  flags :: int
  actions :: "action list"

record packet_out =
  out_datapath :: datapath
  out_buffer_id :: int
  out_in_port :: int
  out_actions :: "action list"
  out_data :: "string option"

datatype message = FlowMod flow_mod | PacketOut packet_out

definition OFP_LW_PRIORITY :: int where
  "OFP_LW_PRIORITY = 100"

definition OFP_RULE_PRIORITY :: int where
  "OFP_RULE_PRIORITY = 200"

text \<open>
  Modelled from the spec: the constants of \<open>ryu.ofproto.ofproto_v1_0\<close> and
  \<open>ryu.lib.packet.ether_types\<close> that the packet-in handler compares with (the flood
  port, the no-buffer id, the flow-removed flag and the two ethertypes that are
  dropped) are not in the source file; they have the values of OpenFlow 1.0 and of the
  ethertype registry.
\<close>

definition OFPP_FLOOD :: int where
  "OFPP_FLOOD = 65531"

definition OFP_NO_BUFFER :: int where
  "OFP_NO_BUFFER = 4294967295"

definition OFPFF_SEND_FLOW_REM :: int where
  "OFPFF_SEND_FLOW_REM = 1"

definition ETH_TYPE_LLDP :: int where
  "ETH_TYPE_LLDP = 35020"

definition ETH_TYPE_IPV6 :: int where
  "ETH_TYPE_IPV6 = 34525"

section \<open>The application state\<close>

text \<open>
  Modelled from the spec: the intent class of \<open>ryu.app.rest_intent\<close> is not in the
  source file. An intent is an object with the fields the code reads and writes:
  \<open>uuid\<close>, \<open>ttp_dpid\<close>, \<open>ttp_port\<close>, the dictionary \<open>match\<close> and the list
  \<open>flow_mods\<close> (the compiled rule set, initially empty).
\<close>

record 'u rule =
  uuid :: 'u
  ttp_dpid :: int
  ttp_port :: int
  rule_match :: match_dict
  flow_mods :: "flow_mod list"

text \<open>
  The state of the application is \<open>self.mac_to_port\<close>, \<open>self.rules\<close> (iterated by
  \<open>remove_rule\<close>, so an association list) and the messages handed to
  \<open>datapath.send_msg\<close>, in the order of the calls. An intent object is stored under
  its own \<open>uuid\<close> and the code never changes that field, so the stored value is the
  object.
\<close>

record 'u state =
  mac_to_port :: "int \<rightharpoonup> (string \<rightharpoonup> int)"
  rules :: "('u \<times> 'u rule) list"
  sent :: "message list"

section \<open>Compiling an intent\<close>

definition compute_spanning_tree :: "topology \<Rightarrow> int \<Rightarrow> error + (dist_dict \<times> prev_dict)" where
  "compute_spanning_tree topo ttp =
     (let sws = map (\<lambda>sw. dp_id (dp sw)) (get_switch topo None);
          lks = map (\<lambda>l. \<lparr>src = dpid (link_src l), dst = dpid (link_dst l),
                           port = port_no (link_dst l)\<rparr>) (get_link topo)
      in dijkstra sws lks ttp)"

text \<open>
  \<open>for in_port in datapath.ports\<close>: the two \<open>continue\<close>, then the entry
  \<open>'in_port'\<close> is set in \<open>rule.match\<close>, the match object is built, the entry is
  deleted again, and the flow mod is appended to \<open>rule.flow_mods\<close>.
\<close>

fun compile_ports :: "datapath \<Rightarrow> int \<Rightarrow> int list \<Rightarrow> 'u rule \<Rightarrow> 'u rule" where
  "compile_ports datapath out [] rule = rule"
| "compile_ports datapath out (in_port # rest) rule =
     (if in_port = out then compile_ports datapath out rest rule
      else if in_port = 65534 then compile_ports datapath out rest rule
      else
        (let m = (rule_match rule)(''in_port'' \<mapsto> IntV in_port);
             fm = \<lparr>mod_datapath = datapath, mod_match = m, cookie = 0, command = OFPFC_ADD,
                   idle_timeout = 0, hard_timeout = 0, priority = 200, flags = 0,
                   actions = [OFPActionOutput out]\<rparr>
         in compile_ports datapath out rest
              (rule\<lparr>rule_match := m(''in_port'' := None),
                    flow_mods := flow_mods rule @ [fm]\<rparr>)))"

text \<open>
  \<open>for pred in preds\<close>: \<open>preds[pred]\<close> is \<open>None\<close> (false) or the list
  \<open>[u, port]\<close> (true); indexing the list \<open>get_switch\<close> returns with \<open>[0]\<close> raises
  IndexError when it is empty. The intent keeps what was appended before an exception.
\<close>

fun compile_preds ::
  "topology \<Rightarrow> prev_dict \<Rightarrow> int list \<Rightarrow> 'u rule \<Rightarrow> (error + unit) \<times> 'u rule" where
  "compile_preds topo preds [] rule = (Inr (), rule)"
| "compile_preds topo preds (pred # rest) rule =
     (case map_of preds pred of
        None \<Rightarrow> (Inl KeyError, rule)
      | Some None \<Rightarrow>
          (case get_switch topo (Some (ttp_dpid rule)) of
             [] \<Rightarrow> (Inl IndexError, rule)
           | sw # _ \<Rightarrow>
               compile_preds topo preds rest
                 (compile_ports (dp sw) (ttp_port rule) (ports (dp sw)) rule))
      | Some (Some (u, p)) \<Rightarrow>
          (case get_switch topo (Some pred) of
             [] \<Rightarrow> (Inl IndexError, rule)
           | sw # _ \<Rightarrow>
               compile_preds topo preds rest
                 (compile_ports (dp sw) p (ports (dp sw)) rule)))"

definition compile_rule :: "topology \<Rightarrow> 'u rule \<Rightarrow> (error + unit) \<times> 'u rule" where
  "compile_rule topo rule =
     (case compute_spanning_tree topo (ttp_dpid rule) of
        Inl e \<Rightarrow> (Inl e, rule)
      | Inr (dists, preds) \<Rightarrow> compile_preds topo preds (map fst preds) rule)"

section \<open>The intent registry\<close>

text \<open>
  \<open>add_rule\<close>: compile, send every flow mod of the intent, store the intent. An
  exception of the compilation leaves before anything is sent or stored.
\<close>

definition add_rule :: "topology \<Rightarrow> 'u rule \<Rightarrow> 'u state \<Rightarrow> (error + unit) \<times> 'u state" where
  "add_rule topo rule st =
     (case compile_rule topo rule of
        (Inl e, rule') \<Rightarrow> (Inl e, st)
      | (Inr _, rule') \<Rightarrow>
          (Inr (),
           st\<lparr>sent := sent st @ map FlowMod (flow_mods rule'),
              rules := AList.update (uuid rule') rule' (rules st)\<rparr>))"

text \<open>The delete that \<open>_remove_reverse_path\<close> builds from a stored flow mod.\<close>

definition delete_mod :: "flow_mod \<Rightarrow> flow_mod" where
  "delete_mod fm =
     \<lparr>mod_datapath = mod_datapath fm, mod_match = mod_match fm, cookie = 0,
      command = OFPFC_DELETE_STRICT, idle_timeout = 0, hard_timeout = 0,
      priority = OFP_RULE_PRIORITY, flags = 0, actions = []\<rparr>"

definition remove_reverse_path :: "'u \<Rightarrow> 'u state \<Rightarrow> (error + unit) \<times> 'u state" where
  "remove_reverse_path u st =
     (case map_of (rules st) u of
        None \<Rightarrow> (Inl KeyError, st)
      | Some rule \<Rightarrow>
          (Inr (), st\<lparr>sent := sent st @ map (\<lambda>fm. FlowMod (delete_mod fm)) (flow_mods rule)\<rparr>))"

text \<open>\<open>self._remove_reverse_path(uuid); del self.rules[uuid]\<close>\<close>

definition remove_one :: "'u \<Rightarrow> 'u state \<Rightarrow> (error + unit) \<times> 'u state" where
  "remove_one u st =
     (case remove_reverse_path u st of
        (Inl e, st') \<Rightarrow> (Inl e, st')
      | (Inr _, st') \<Rightarrow>
          (case map_of (rules st') u of
             None \<Rightarrow> (Inl KeyError, st')
           | Some _ \<Rightarrow> (Inr (), st'\<lparr>rules := AList.delete u (rules st')\<rparr>)))"

text \<open>\<open>for uuid in list(self.rules)\<close>, over the keys as they were before the loop.\<close>

fun remove_each :: "'u list \<Rightarrow> 'u state \<Rightarrow> (error + unit) \<times> 'u state" where
  "remove_each [] st = (Inr (), st)"
| "remove_each (u # us) st =
     (case remove_one u st of
        (Inl e, st') \<Rightarrow> (Inl e, st')
      | (Inr _, st') \<Rightarrow> remove_each us st')"

text \<open>
  The argument of \<open>remove_rule\<close> is a uuid object, true in a condition
  (\<open>Some u\<close>), or the default \<open>None\<close>.
\<close>

definition remove_rule :: "'u option \<Rightarrow> 'u state \<Rightarrow> (error + unit) \<times> 'u state" where
  "remove_rule uu st =
     (case uu of
        Some u \<Rightarrow> remove_one u st
      | None \<Rightarrow> remove_each (map fst (rules st)) st)"

definition update_rule ::
  "topology \<Rightarrow> 'u option \<Rightarrow> 'u rule \<Rightarrow> 'u state \<Rightarrow> (error + unit) \<times> 'u state" where
  "update_rule topo uu rule st =
     (case remove_rule uu st of
        (Inl e, st') \<Rightarrow> (Inl e, st')
      | (Inr _, st') \<Rightarrow> add_rule topo rule st')"

section \<open>The learning switch\<close>

text \<open>
  A packet-in message with the fields the handler reads, and the Ethernet header that
  the packet library decodes from \<open>msg.data\<close> (\<open>None\<close> when the data holds no
  Ethernet header, and \<open>eth.ethertype\<close> raises AttributeError).
\<close>

record packet_in =
  msg_datapath :: datapath
  in_port :: int
  buffer_id :: int
  data :: string

record ethernet =
  ethertype :: int
  eth_dst :: string
  eth_src :: string

text \<open>
  \<open>int(dst.split(':')[0], 16)\<close>: the text before the first colon, read as a
  hexadecimal number. The packet library writes an address as six pairs of hexadecimal
  digits separated by colons; on such text, and on any text of hexadecimal digits,
  \<open>int_base16\<close> is Python's \<open>int(s, 16)\<close>, which raises ValueError on the empty text
  and on a character that is no digit.
\<close>

definition hex_digit :: "char \<Rightarrow> int option" where
  "hex_digit c =
     (let n = (of_char c :: nat) in
      if 48 \<le> n \<and> n \<le> 57 then Some (int n - 48)
      else if 97 \<le> n \<and> n \<le> 102 then Some (int n - 87)
      else if 65 \<le> n \<and> n \<le> 70 then Some (int n - 55)
      else None)"

fun hex_value :: "int \<Rightarrow> string \<Rightarrow> error + int" where
  "hex_value acc [] = Inr acc"
| "hex_value acc (c # cs) =
     (case hex_digit c of
        None \<Rightarrow> Inl ValueError
      | Some d \<Rightarrow> hex_value (16 * acc + d) cs)"

definition int_base16 :: "string \<Rightarrow> error + int" where
  "int_base16 s = (if s = [] then Inl ValueError else hex_value 0 s)"

definition first_field :: "string \<Rightarrow> string" where
  "first_field s = takeWhile (\<lambda>c. c \<noteq> CHR '':'') s"

definition add_flow :: "datapath \<Rightarrow> int \<Rightarrow> string \<Rightarrow> action list \<Rightarrow> 'u state \<Rightarrow> 'u state" where
  "add_flow datapath inp d acts st =
     st\<lparr>sent := sent st @
        [FlowMod \<lparr>mod_datapath = datapath,
                  mod_match = [''in_port'' \<mapsto> IntV inp, ''dl_dst'' \<mapsto> StrV d],
                  cookie = 0, command = OFPFC_ADD, idle_timeout = 0, hard_timeout = 0,
                  priority = OFP_LW_PRIORITY, flags = OFPFF_SEND_FLOW_REM,
                  actions = acts\<rparr>]\<rparr>"

text \<open>
  \<open>_packet_in_handler\<close>, without its two log lines. \<open>setdefault\<close> gives the switch
  an empty table when it has none.
\<close>

definition packet_in_handler ::
  "packet_in \<Rightarrow> ethernet option \<Rightarrow> 'u state \<Rightarrow> (error + unit) \<times> 'u state" where
  "packet_in_handler msg pkt st =
     (case pkt of
        None \<Rightarrow> (Inl AttributeError, st)
      | Some eth \<Rightarrow>
          if ethertype eth = ETH_TYPE_LLDP then (Inr (), st)
          else if ethertype eth = ETH_TYPE_IPV6 then (Inr (), st)
          else
            (case int_base16 (first_field (eth_dst eth)) of
               Inl e \<Rightarrow> (Inl e, st)
             | Inr n \<Rightarrow>
                 if n AND 1 \<noteq> 0 then (Inr (), st)
                 else
                   (let datapath = msg_datapath msg;
                        d = dp_id datapath;
                        table = (case mac_to_port st d of None \<Rightarrow> Map.empty | Some t \<Rightarrow> t);
                        table' = table(eth_src eth \<mapsto> in_port msg);
                        st1 = st\<lparr>mac_to_port := (mac_to_port st)(d \<mapsto> table')\<rparr>;
                        out_port = (case table' (eth_dst eth) of
                                      Some p \<Rightarrow> p
                                    | None \<Rightarrow> OFPP_FLOOD);
                        acts = [OFPActionOutput out_port];
                        st2 = (if out_port \<noteq> OFPP_FLOOD
                               then add_flow datapath (in_port msg) (eth_dst eth) acts st1
                               else st1);
                        dat = (if buffer_id msg = OFP_NO_BUFFER then Some (data msg) else None);
                        out = \<lparr>out_datapath = datapath, out_buffer_id = buffer_id msg,
                               out_in_port = in_port msg, out_actions = acts,
                               out_data = dat\<rparr>
                    in (Inr (), st2\<lparr>sent := sent st2 @ [PacketOut out]\<rparr>))))"

section \<open>Paths of the link graph and the loop invariant\<close>

text \<open>
  A path is a non-empty list of switches in which each is joined to the next by a
  link. \<open>hops edges s v n\<close>: some path of \<open>n\<close> links leads from \<open>s\<close> to \<open>v\<close>.
  \<open>min_hops\<close> is the specification's distance: the least number of links on a path
  from the target, and the unreachable value when there is no path.
\<close>

fun is_path :: "edge list \<Rightarrow> int list \<Rightarrow> bool" where
  "is_path edges [] = False"
| "is_path edges [v] = True"
| "is_path edges (u # v # p) =
     ((\<exists>e\<in>set edges. src e = u \<and> dst e = v) \<and> is_path edges (v # p))"

definition hops :: "edge list \<Rightarrow> int \<Rightarrow> int \<Rightarrow> nat \<Rightarrow> bool" where
  "hops edges s v n = (\<exists>p. is_path edges p \<and> hd p = s \<and> last p = v \<and> length p = Suc n)"

definition min_hops :: "edge list \<Rightarrow> int \<Rightarrow> int \<Rightarrow> enat" where
  "min_hops edges s v =
     (if \<exists>n. hops edges s v n then enat (LEAST n. hops edges s v n) else \<infinity>)"

definition dval :: "dist_dict \<Rightarrow> int \<Rightarrow> enat" where
  "dval dists v = (case map_of dists v of None \<Rightarrow> \<infinity> | Some d \<Rightarrow> d)"

text \<open>
  The invariant of the \<open>while\<close> loop, for the switches \<open>V\<close>, the unvisited list
  \<open>U\<close> and the source \<open>s\<close>: the keys of \<open>dist\<close> are the switches; the source is at
  0; a finite distance is the length of some path; no visited switch is farther than
  an unvisited one; every link that leaves a visited switch is relaxed.
\<close>

definition visit_inv :: "int list \<Rightarrow> edge list \<Rightarrow> int \<Rightarrow> dist_dict \<Rightarrow> int list \<Rightarrow> bool" where
  "visit_inv V E s dists U \<longleftrightarrow>
     distinct (map fst dists) \<and> fst ` set dists = set V \<and> set U \<subseteq> set V \<and>
     dval dists s = 0 \<and>
     (\<forall>v n. dval dists v = enat n \<longrightarrow> hops E s v n) \<and>
     (\<forall>x\<in>set V - set U. \<forall>y\<in>set U. dval dists x \<le> dval dists y) \<and>
     (\<forall>e\<in>set E. src e \<in> set V - set U \<longrightarrow> dval dists (dst e) \<le> dval dists (src e) + 1)"

text \<open>
  The flow mod that the loop over the ports builds for the ingress port \<open>p\<close>, and
  what every flow mod built there satisfies.
\<close>

definition port_mod :: "datapath \<Rightarrow> int \<Rightarrow> match_dict \<Rightarrow> int \<Rightarrow> flow_mod" where
  "port_mod datapath out m p =
     \<lparr>mod_datapath = datapath, mod_match = m(''in_port'' \<mapsto> IntV p), cookie = 0,
      command = OFPFC_ADD, idle_timeout = 0, hard_timeout = 0, priority = 200, flags = 0,
      actions = [OFPActionOutput out]\<rparr>"

definition compiled_mod :: "flow_mod \<Rightarrow> bool" where
  "compiled_mod fm \<longleftrightarrow>
     (\<exists>datapath out m p. p \<noteq> out \<and> p \<noteq> 65534 \<and> fm = port_mod datapath out m p)"

text \<open>
  The datapath ids of the snapshot's switches, and the snapshots in which every link
  that leaves a listed switch ends at a listed switch.
\<close>

definition switch_ids :: "topology \<Rightarrow> int set" where
  "switch_ids topo = (\<lambda>sw. dp_id (dp sw)) ` set (switches topo)"

definition links_closed :: "topology \<Rightarrow> bool" where
  "links_closed topo \<longleftrightarrow>
     (\<forall>l\<in>set (links topo). dpid (link_src l) \<in> switch_ids topo \<longrightarrow>
        dpid (link_dst l) \<in> switch_ids topo)"

section \<open>The forwarding tables\<close>

text \<open>
  Modelled from the spec: the switches behind the gateway and their forwarding tables
  are not in the source file. The switch-side forwarding state, as observed through the
  gateway calls, is the list of entries that the messages sent so far have left. An
  entry has the key of its flow mod (switch, match and priority) and its actions. An
  add (\<open>installRule\<close>) replaces the entry of its key or appends a new one, a strict
  delete (\<open>deleteRule\<close>) removes the entry of its key, a plain delete
  (\<open>resetTable\<close> when its match is empty) removes every entry of the switch whose
  match contains the match of the delete, and a packet out changes no table.
\<close>

type_synonym flow_key = "int \<times> match_dict \<times> int"
type_synonym flow_table = "(flow_key \<times> action list) list"

definition mod_key :: "flow_mod \<Rightarrow> flow_key" where
  "mod_key fm = (dp_id (mod_datapath fm), mod_match fm, priority fm)"

fun apply_msg :: "message \<Rightarrow> flow_table \<Rightarrow> flow_table" where
  "apply_msg (PacketOut out) T = T"
| "apply_msg (FlowMod fm) T =
     (case command fm of
        OFPFC_ADD \<Rightarrow> filter (\<lambda>e. fst e \<noteq> mod_key fm) T @ [(mod_key fm, actions fm)]
      | OFPFC_DELETE_STRICT \<Rightarrow> filter (\<lambda>e. fst e \<noteq> mod_key fm) T
      | OFPFC_DELETE \<Rightarrow>
          filter (\<lambda>e. \<not> (fst (fst e) = dp_id (mod_datapath fm) \<and>
                           map_le (mod_match fm) (fst (snd (fst e))))) T)"

definition replay :: "message list \<Rightarrow> flow_table \<Rightarrow> flow_table" where
  "replay msgs T = fold apply_msg msgs T"

section \<open>Example snapshots\<close>

text \<open>
  Two switches joined by a link in each direction (\<open>ex_line\<close>), the same two
  switches without a link (\<open>ex_apart\<close>), the first switch alone (\<open>ex_alone\<close>),
  and the first switch with a link to a switch that is not listed (\<open>ex_dangling\<close>);
  a fresh intent towards port 1 of switch 1, and the state of a freshly started
  application.
\<close>

definition ex_dp1 :: datapath where
  "ex_dp1 = \<lparr>dp_id = 1, ports = [1, 2, 65534]\<rparr>"

definition ex_dp2 :: datapath where
  "ex_dp2 = \<lparr>dp_id = 2, ports = [1, 2]\<rparr>"

definition ex_line :: topology where
  "ex_line =
     \<lparr>switches = [\<lparr>dp = ex_dp1\<rparr>, \<lparr>dp = ex_dp2\<rparr>],
      links = [\<lparr>link_src = \<lparr>dpid = 1, port_no = 2\<rparr>, link_dst = \<lparr>dpid = 2, port_no = 1\<rparr>\<rparr>,
               \<lparr>link_src = \<lparr>dpid = 2, port_no = 1\<rparr>, link_dst = \<lparr>dpid = 1, port_no = 2\<rparr>\<rparr>]\<rparr>"

definition ex_apart :: topology where
  "ex_apart = \<lparr>switches = [\<lparr>dp = ex_dp1\<rparr>, \<lparr>dp = ex_dp2\<rparr>], links = []\<rparr>"

definition ex_alone :: topology where
  "ex_alone = \<lparr>switches = [\<lparr>dp = ex_dp1\<rparr>], links = []\<rparr>"

definition ex_dangling :: topology where
  "ex_dangling =
     \<lparr>switches = [\<lparr>dp = ex_dp1\<rparr>],
      links = [\<lparr>link_src = \<lparr>dpid = 1, port_no = 2\<rparr>, link_dst = \<lparr>dpid = 3, port_no = 1\<rparr>\<rparr>]\<rparr>"

definition ex_intent :: "string rule" where
  "ex_intent =
     \<lparr>uuid = ''a'', ttp_dpid = 1, ttp_port = 1, rule_match = [''dl_type'' \<mapsto> IntV 2048],
      flow_mods = []\<rparr>"

definition ex_state :: "string state" where
  "ex_state = \<lparr>mac_to_port = Map.empty, rules = [], sent = []\<rparr>"

text \<open>
  A packet-in on port 3 of switch 1, and four decoded frames from the same source: a
  link-layer-discovery frame, an IPv6 frame, a frame to a multicast address and a
  frame to a unicast address.
\<close>

definition ex_msg :: packet_in where
  "ex_msg = \<lparr>msg_datapath = ex_dp1, in_port = 3, buffer_id = 7, data = ''payload''\<rparr>"

definition ex_lldp :: ethernet where
  "ex_lldp = \<lparr>ethertype = 35020, eth_dst = ''01:80:c2:00:00:0e'', eth_src = ''00:00:00:00:00:0a''\<rparr>"

definition ex_ipv6 :: ethernet where
  "ex_ipv6 = \<lparr>ethertype = 34525, eth_dst = ''00:00:00:00:00:0b'', eth_src = ''00:00:00:00:00:0a''\<rparr>"

definition ex_multicast :: ethernet where
  "ex_multicast = \<lparr>ethertype = 2048, eth_dst = ''01:00:5e:00:00:01'', eth_src = ''00:00:00:00:00:0a''\<rparr>"

definition ex_unicast :: ethernet where
  "ex_unicast = \<lparr>ethertype = 2048, eth_dst = ''00:00:00:00:00:0b'', eth_src = ''00:00:00:00:00:0a''\<rparr>"

text \<open>
  An intent compiled earlier and stored under the uuid of \<open>ex_intent\<close>, and the
  state that holds it.
\<close>

definition ex_old :: "string rule" where
  "ex_old =
     \<lparr>uuid = ''a'', ttp_dpid = 2, ttp_port = 2, rule_match = [''dl_type'' \<mapsto> IntV 2054],
      flow_mods = [port_mod ex_dp2 2 [''dl_type'' \<mapsto> IntV 2054] 1]\<rparr>"

definition ex_stored :: "string state" where
  "ex_stored = \<lparr>mac_to_port = Map.empty, rules = [(''a'', ex_old)], sent = []\<rparr>"

text \<open>
  A second fresh intent with the match and the target of \<open>ex_intent\<close>; the states
  after it is added, after \<open>ex_intent\<close> is added next and after \<open>ex_intent\<close> is
  removed again; a table that holds one learned entry of priority 100; the intent
  \<open>ex_intent\<close> as compiled on \<open>ex_line\<close> and the state after it was added to the
  fresh state; the table that holds the entry of the flow mod of \<open>ex_old\<close>.
\<close>

definition ex_twin :: "string rule" where
  "ex_twin =
     \<lparr>uuid = ''b'', ttp_dpid = 1, ttp_port = 1, rule_match = [''dl_type'' \<mapsto> IntV 2048],
      flow_mods = []\<rparr>"

definition ex_s0 :: "string state" where
  "ex_s0 = snd (add_rule ex_line ex_twin ex_state)"

definition ex_s1 :: "string state" where
  "ex_s1 = snd (add_rule ex_line ex_intent ex_s0)"

definition ex_s2 :: "string state" where
  "ex_s2 = snd (remove_rule (Some ''a'') ex_s1)"

definition ex_table :: flow_table where
  "ex_table =
     [((1, [''in_port'' \<mapsto> IntV 3, ''dl_dst'' \<mapsto> StrV ''00:00:00:00:00:0b''], 100),
       [OFPActionOutput 2])]"

definition ex_compiled :: "string rule" where
  "ex_compiled =
     ex_intent\<lparr>flow_mods :=
       [port_mod ex_dp1 1 (rule_match ex_intent) 2, port_mod ex_dp2 1 (rule_match ex_intent) 2]\<rparr>"

definition ex_added :: "string state" where
  "ex_added =
     \<lparr>mac_to_port = Map.empty, rules = [(''a'', ex_compiled)],
      sent = map FlowMod (flow_mods ex_compiled)\<rparr>"

definition ex_old_table :: flow_table where
  "ex_old_table =
     [(mod_key (port_mod ex_dp2 2 [''dl_type'' \<mapsto> IntV 2054] 1), [OFPActionOutput 2])]"

section \<open>Correctness of dijkstra\<close>

lemma min_from_mem: "min_from best kvs \<in> set (best # kvs)"
  by (induction kvs arbitrary: best) auto

lemma min_key_mem: "min_key kvs = Inr u \<Longrightarrow> u \<in> fst ` set kvs"
proof (cases kvs)
  case Nil
  assume "min_key kvs = Inr u"
  with Nil show ?thesis by simp
next
  case (Cons kv rest)
  assume "min_key kvs = Inr u"
  with Cons have "u = fst (min_from kv rest)" by simp
  moreover have "min_from kv rest \<in> set kvs"
    using min_from_mem [of kv rest] Cons by simp
  ultimately show ?thesis by blast
qed

lemma hops_self: "hops edges s s 0"
  unfolding hops_def by (rule exI [of _ "[s]"]) simp

lemma is_path_snoc:
  "is_path edges p \<Longrightarrow> e \<in> set edges \<Longrightarrow> src e = last p \<Longrightarrow> is_path edges (p @ [dst e])"
  by (induction edges p rule: is_path.induct) auto

lemma is_path_nonempty: "is_path edges p \<Longrightarrow> p \<noteq> []"
  by (cases p) auto

lemma hops_step:
  assumes "hops edges s u n" and "e \<in> set edges" and "src e = u"
  shows "hops edges s (dst e) (Suc n)"
proof -
  from assms(1) obtain p where p: "is_path edges p" "hd p = s" "last p = u" "length p = Suc n"
    unfolding hops_def by blast
  from p(1) have ne: "p \<noteq> []" by (rule is_path_nonempty)
  have "is_path edges (p @ [dst e])" using is_path_snoc [OF p(1) assms(2)] assms(3) p(3) by simp
  moreover have "hd (p @ [dst e]) = s" using ne p(2) by simp
  moreover have "last (p @ [dst e]) = dst e" by simp
  moreover have "length (p @ [dst e]) = Suc (Suc n)" using p(4) by simp
  ultimately show ?thesis unfolding hops_def by blast
qed

lemma dval_update: "dval (AList.update k d dists) v = (if v = k then d else dval dists v)"
  by (simp add: dval_def update_conv')

lemma dval_Some: "map_of dists v = Some d \<Longrightarrow> dval dists v = d"
  by (simp add: dval_def)

lemma map_of_dval: "v \<in> fst ` set dists \<Longrightarrow> map_of dists v = Some (dval dists v)"
  by (cases "map_of dists v") (auto simp: dval_def map_of_eq_None_iff)

lemma keys_update_mem: "k \<in> fst ` set al \<Longrightarrow> map fst (AList.update k v al) = map fst al"
  by (simp add: update_keys)

lemma map_of_Some_key: "map_of al k = Some v \<Longrightarrow> k \<in> fst ` set al"
  by (force dest: map_of_SomeD)

lemma relax_Cons_D:
  "relax u (v # ns) dists prev = Inr r \<Longrightarrow>
     \<exists>du dv. map_of dists u = Some du \<and> map_of dists (dst v) = Some dv"
  by (auto simp: Let_def split: option.splits)

lemma relax_Cons:
  "map_of dists u = Some du \<Longrightarrow> map_of dists (dst v) = Some dv \<Longrightarrow>
     relax u (v # ns) dists prev =
       (if du + 1 < dv
        then relax u ns (AList.update (dst v) (du + 1) dists)
               (AList.update (dst v) (Some (u, port v)) prev)
        else relax u ns dists prev)"
  by (simp add: Let_def)

declare relax.simps(2) [simp del]

lemma relax_keys:
  "relax u ns dists prev = Inr (dists', prev') \<Longrightarrow> map fst dists' = map fst dists"
proof (induction ns arbitrary: dists prev)
  case Nil
  then show ?case by simp
next
  case (Cons e ns)
  from relax_Cons_D [OF Cons.prems(1)] obtain du dv
    where du: "map_of dists u = Some du" and dv: "map_of dists (dst e) = Some dv" by blast
  note step = relax_Cons [OF du dv, of ns prev]
  have mem: "dst e \<in> fst ` set dists" using dv by (rule map_of_Some_key)
  show ?case
  proof (cases "du + 1 < dv")
    case True
    with Cons.prems step have "relax u ns (AList.update (dst e) (du + 1) dists)
        (AList.update (dst e) (Some (u, port e)) prev) = Inr (dists', prev')" by simp
    from Cons.IH [OF this] show ?thesis using keys_update_mem [OF mem] by simp
  next
    case False
    with Cons.prems step have "relax u ns dists prev = Inr (dists', prev')" by simp
    from Cons.IH [OF this] show ?thesis .
  qed
qed

lemma enat_not_less_self_plus: "\<not> (d::enat) + 1 < d"
  by (cases d) auto

lemma relax_dval:
  "relax u ns dists prev = Inr (dists', prev') \<Longrightarrow>
     dval dists' v = dval dists v \<or>
     (dval dists' v = dval dists u + 1 \<and> dval dists u + 1 < dval dists v \<and> (\<exists>e\<in>set ns. dst e = v))"
proof (induction ns arbitrary: dists prev)
  case Nil
  then show ?case by simp
next
  case (Cons e ns)
  from relax_Cons_D [OF Cons.prems(1)] obtain du dv
    where du: "map_of dists u = Some du" and dv: "map_of dists (dst e) = Some dv" by blast
  note step = relax_Cons [OF du dv, of ns prev]
  have du': "dval dists u = du" and dv': "dval dists (dst e) = dv"
    using du dv by (simp_all add: dval_Some)
  show ?case
  proof (cases "du + 1 < dv")
    case True
    let ?d2 = "AList.update (dst e) (du + 1) dists"
    from True Cons.prems step have r: "relax u ns ?d2
        (AList.update (dst e) (Some (u, port e)) prev) = Inr (dists', prev')" by simp
    have neq: "dst e \<noteq> u" using True du dv enat_not_less_self_plus [of du] by auto
    have u2: "dval ?d2 u = du" using neq du' by (simp add: dval_update)
    from Cons.IH [OF r, of ] have ih: "dval dists' v = dval ?d2 v \<or>
      (dval dists' v = dval ?d2 u + 1 \<and> dval ?d2 u + 1 < dval ?d2 v \<and> (\<exists>e\<in>set ns. dst e = v))" .
    show ?thesis
    proof (cases "v = dst e")
      case True
      with ih u2 \<open>du + 1 < dv\<close> du' dv' show ?thesis by (auto simp: dval_update)
    next
      case False
      with ih u2 du' show ?thesis by (auto simp: dval_update)
    qed
  next
    case False
    with Cons.prems step have "relax u ns dists prev = Inr (dists', prev')" by simp
    from Cons.IH [OF this] show ?thesis by auto
  qed
qed

lemma relax_dval_le:
  "relax u ns dists prev = Inr (dists', prev') \<Longrightarrow> dval dists' v \<le> dval dists v"
  using relax_dval [of u ns dists prev dists' prev' v] by auto

lemma relax_dval_self:
  "relax u ns dists prev = Inr (dists', prev') \<Longrightarrow> dval dists' u = dval dists u"
  using relax_dval [of u ns dists prev dists' prev' u] enat_not_less_self_plus [of "dval dists u"] by auto

lemma relax_relaxed:
  "relax u ns dists prev = Inr (dists', prev') \<Longrightarrow> e \<in> set ns \<Longrightarrow>
     dval dists' (dst e) \<le> dval dists u + 1"
proof (induction ns arbitrary: dists prev)
  case Nil
  then show ?case by simp
next
  case (Cons a ns)
  from relax_Cons_D [OF Cons.prems(1)] obtain du dv
    where du: "map_of dists u = Some du" and dv: "map_of dists (dst a) = Some dv" by blast
  note step = relax_Cons [OF du dv, of ns prev]
  have du': "dval dists u = du" and dv': "dval dists (dst a) = dv"
    using du dv by (simp_all add: dval_Some)
  show ?case
  proof (cases "du + 1 < dv")
    case True
    let ?d2 = "AList.update (dst a) (du + 1) dists"
    from True Cons.prems step have r: "relax u ns ?d2
        (AList.update (dst a) (Some (u, port a)) prev) = Inr (dists', prev')" by simp
    have neq: "dst a \<noteq> u" using True du dv enat_not_less_self_plus [of du] by auto
    have u2: "dval ?d2 u = du" using neq du' by (simp add: dval_update)
    show ?thesis
    proof (cases "e = a")
      case True
      have "dval dists' (dst a) \<le> dval ?d2 (dst a)" using relax_dval_le [OF r] .
      then show ?thesis using True du' by (simp add: dval_update)
    next
      case False
      with Cons.prems have "e \<in> set ns" by simp
      from Cons.IH [OF r this] u2 du' show ?thesis by simp
    qed
  next
    case False
    with Cons.prems step have r: "relax u ns dists prev = Inr (dists', prev')" by simp
    show ?thesis
    proof (cases "e = a")
      case True
      have "dval dists' (dst a) \<le> dval dists (dst a)" using relax_dval_le [OF r] .
      with \<open>\<not> du + 1 < dv\<close> dv' du' True show ?thesis by auto
    next
      case False
      with Cons.prems have "e \<in> set ns" by simp
      from Cons.IH [OF r this] show ?thesis .
    qed
  qed
qed

lemma relax_succeeds:
  "u \<in> fst ` set dists \<Longrightarrow> \<forall>e\<in>set ns. dst e \<in> fst ` set dists \<Longrightarrow>
     \<exists>dists' prev'. relax u ns dists prev = Inr (dists', prev')"
proof (induction ns arbitrary: dists prev)
  case Nil
  then show ?case by simp
next
  case (Cons a ns)
  from Cons.prems have mu: "map_of dists u = Some (dval dists u)"
    and mv: "map_of dists (dst a) = Some (dval dists (dst a))"
    by (simp_all add: map_of_dval)
  show ?case
  proof (cases "dval dists u + 1 < dval dists (dst a)")
    case True
    let ?d2 = "AList.update (dst a) (dval dists u + 1) dists"
    have "fst ` set ?d2 = fst ` set dists" using Cons.prems by (auto simp: dom_update)
    with Cons.prems have "u \<in> fst ` set ?d2" "\<forall>e\<in>set ns. dst e \<in> fst ` set ?d2" by simp_all
    from Cons.IH [OF this] show ?thesis using True relax_Cons [OF mu mv] by simp
  next
    case False
    from Cons.prems have "u \<in> fst ` set dists" "\<forall>e\<in>set ns. dst e \<in> fst ` set dists" by simp_all
    from Cons.IH [OF this] show ?thesis using False relax_Cons [OF mu mv] by simp
  qed
qed

lemma min_from_least: "x \<in> set (best # kvs) \<Longrightarrow> snd (min_from best kvs) \<le> snd x"
proof (induction kvs arbitrary: best x)
  case Nil
  then show ?case by simp
next
  case (Cons kv kvs)
  let ?b = "if snd kv < snd best then kv else best"
  have b: "snd ?b \<le> snd best" "snd ?b \<le> snd kv" by auto
  show ?case
  proof (cases "x \<in> set (?b # kvs)")
    case True
    from Cons.IH [OF this] show ?thesis by simp
  next
    case False
    with Cons.prems have "x = best \<or> x = kv" by auto
    moreover have "snd (min_from ?b kvs) \<le> snd ?b" using Cons.IH [of ?b ?b] by simp
    ultimately show ?thesis using b by (auto intro: order_trans)
  qed
qed


lemma min_key_least:
  assumes "min_key kvs = Inr u"
  shows "\<exists>d. (u, d) \<in> set kvs \<and> (\<forall>x\<in>set kvs. d \<le> snd x)"
proof (cases kvs)
  case Nil
  with assms show ?thesis by simp
next
  case (Cons kv rest)
  let ?r = "min_from kv rest"
  from Cons assms have u: "u = fst ?r" by simp
  have "?r \<in> set kvs" using min_from_mem [of kv rest] Cons by simp
  then have "(u, snd ?r) \<in> set kvs" using u by simp
  moreover have "\<forall>x\<in>set kvs. snd ?r \<le> snd x" using min_from_least [of _ kv rest] Cons by simp
  ultimately show ?thesis by blast
qed

lemma min_key_nonempty: "kvs \<noteq> [] \<Longrightarrow> \<exists>u. min_key kvs = Inr u"
  by (cases kvs) auto

lemma dval_mem: "distinct (map fst dists) \<Longrightarrow> (k, d) \<in> set dists \<Longrightarrow> dval dists k = d"
  by (simp add: dval_def)

lemma visit_step_inv:
  assumes inv: "visit_inv V E s dists U"
    and closed: "\<forall>e\<in>set E. src e \<in> set V \<longrightarrow> dst e \<in> set V"
    and m: "min_key (filter (\<lambda>(k, v). k \<in> set U) dists) = Inr u"
    and r: "relax u (filter (\<lambda>x. src x = u) E) dists prev = Inr (dists', prev')"
  shows "visit_inv V E s dists' (remove1 u U)"
proof -
  let ?U' = "remove1 u U"
  let ?ns = "filter (\<lambda>x. src x = u) E"
  from inv have dis: "distinct (map fst dists)" and keys: "fst ` set dists = set V"
    and UV: "set U \<subseteq> set V" and s0: "dval dists s = 0"
    and reach: "\<And>v n. dval dists v = enat n \<Longrightarrow> hops E s v n"
    and J: "\<And>x y. x \<in> set V \<Longrightarrow> x \<notin> set U \<Longrightarrow> y \<in> set U \<Longrightarrow> dval dists x \<le> dval dists y"
    and K: "\<And>e. e \<in> set E \<Longrightarrow> src e \<in> set V \<Longrightarrow> src e \<notin> set U \<Longrightarrow>
              dval dists (dst e) \<le> dval dists (src e) + 1"
    unfolding visit_inv_def by auto
  from min_key_least [OF m] obtain d where d: "(u, d) \<in> set dists" "u \<in> set U"
    and least: "\<forall>x\<in>set (filter (\<lambda>(k, v). k \<in> set U) dists). d \<le> snd x" by auto
  have du: "dval dists u = d" using dval_mem [OF dis d(1)] .
  have umin: "dval dists u \<le> dval dists y" if "y \<in> set U" for y
  proof -
    from that UV keys have "y \<in> fst ` set dists" by auto
    then obtain dy where dy: "(y, dy) \<in> set dists" by auto
    with that have "(y, dy) \<in> set (filter (\<lambda>(k, v). k \<in> set U) dists)" by simp
    with least have "d \<le> dy" by auto
    with du dval_mem [OF dis dy] show ?thesis by simp
  qed
  have sub: "set ?U' \<subseteq> set U" by (rule set_remove1_subset)
  have keys': "map fst dists' = map fst dists" using relax_keys [OF r] .
  note ch = relax_dval [OF r]
  have old_same: "dval dists' x = dval dists x" if "x \<in> set V" "x \<notin> set U" for x
  proof -
    have le: "dval dists x \<le> dval dists u" using J [OF that d(2)] .
    have "\<not> dval dists u + 1 < dval dists x"
    proof
      assume "dval dists u + 1 < dval dists x"
      from less_le_trans [OF this le] enat_not_less_self_plus [of "dval dists u"]
      show False by blast
    qed
    with ch [of x] show ?thesis by auto
  qed
  have u_same: "dval dists' u = dval dists u" using relax_dval_self [OF r] .
  have ge_u: "dval dists u \<le> dval dists' y" if "y \<in> set U" for y
  proof -
    from ch [of y] show ?thesis
    proof
      assume "dval dists' y = dval dists y"
      with umin [OF that] show ?thesis by simp
    next
      assume "dval dists' y = dval dists u + 1 \<and> dval dists u + 1 < dval dists y \<and> (\<exists>e\<in>set ?ns. dst e = y)"
      then show ?thesis by simp
    qed
  qed
  have c1: "distinct (map fst dists')" using keys' dis by simp
  have c2: "fst ` set dists' = set V"
  proof -
    have "fst ` set dists' = set (map fst dists')" by simp
    also have "\<dots> = set (map fst dists)" using keys' by simp
    finally show ?thesis using keys by simp
  qed
  have c3: "set ?U' \<subseteq> set V" using sub UV by blast
  have c4: "dval dists' s = 0"
  proof -
    from ch [of s] s0 show ?thesis by auto
  qed
  have c5: "hops E s v n" if "dval dists' v = enat n" for v n
  proof -
    from ch [of v] show ?thesis
    proof
      assume "dval dists' v = dval dists v"
      with that reach show ?thesis by simp
    next
      assume a: "dval dists' v = dval dists u + 1 \<and> dval dists u + 1 < dval dists v \<and> (\<exists>e\<in>set ?ns. dst e = v)"
      then obtain e where e: "e \<in> set E" "src e = u" "dst e = v" by auto
      from a that have "dval dists u + 1 = enat n" by simp
      then obtain k where k: "dval dists u = enat k" "n = Suc k"
        by (cases "dval dists u") (auto simp: one_enat_def)
      from hops_step [OF reach [OF k(1)] e(1) e(2)] e(3) k(2) show ?thesis by simp
    qed
  qed
  have c6: "dval dists' x \<le> dval dists' y" if "x \<in> set V" "x \<notin> set ?U'" "y \<in> set ?U'" for x y
  proof -
    from that(3) sub have yU: "y \<in> set U" by blast
    show ?thesis
    proof (cases "x \<in> set U")
      case False
      have "dval dists' x = dval dists x" using old_same [OF that(1) False] .
      moreover have "dval dists x \<le> dval dists u" using J [OF that(1) False d(2)] .
      moreover have "dval dists u \<le> dval dists' y" using ge_u [OF yU] .
      ultimately show ?thesis by simp
    next
      case True
      with that(2) have "x = u" by (metis in_set_remove1)
      with u_same ge_u [OF yU] show ?thesis by simp
    qed
  qed
  have c7: "dval dists' (dst e) \<le> dval dists' (src e) + 1"
    if "e \<in> set E" "src e \<in> set V" "src e \<notin> set ?U'" for e
  proof (cases "src e \<in> set U")
    case False
    have "dval dists' (dst e) \<le> dval dists (dst e)" using relax_dval_le [OF r] .
    also have "\<dots> \<le> dval dists (src e) + 1" using K [OF that(1,2) False] .
    finally show ?thesis using old_same [OF that(2) False] by simp
  next
    case True
    with that(3) have eq: "src e = u" by (metis in_set_remove1)
    with that(1) have "e \<in> set ?ns" by simp
    from relax_relaxed [OF r this] show ?thesis using eq u_same by simp
  qed
  show ?thesis unfolding visit_inv_def using c1 c2 c3 c4 c5 c6 c7 by blast
qed

lemma visit_correct:
  "visit_inv V E s dists U \<Longrightarrow> \<forall>e\<in>set E. src e \<in> set V \<longrightarrow> dst e \<in> set V \<Longrightarrow>
     \<exists>dists' prev'. visit E dists prev U = Inr (dists', prev') \<and> visit_inv V E s dists' []"
proof (induction E dists prev U rule: visit.induct)
  case (1 edges dists prev unvisited)
  note closed = "1.prems"(2)
  note inv = "1.prems"(1)
  show ?case
  proof (cases "unvisited = []")
    case True
    with inv show ?thesis by simp
  next
    case False
    let ?av = "filter (\<lambda>(k, v). k \<in> set unvisited) dists"
    from inv have keys: "fst ` set dists = set V" and UV: "set unvisited \<subseteq> set V"
      unfolding visit_inv_def by auto
    from False obtain y where y: "y \<in> set unvisited" by (cases unvisited) auto
    with UV keys have "y \<in> fst ` set dists" by auto
    then obtain dy where "(y, dy) \<in> set dists" by auto
    with y have "?av \<noteq> []" by (auto simp: filter_empty_conv)
    from min_key_nonempty [OF this] obtain u where u: "min_key ?av = Inr u" by blast
    from min_key_mem [OF u] have uU: "u \<in> set unvisited" by auto
    with UV keys have uk: "u \<in> fst ` set dists" by auto
    have "\<forall>e\<in>set (filter (\<lambda>x. src x = u) edges). dst e \<in> fst ` set dists"
      using closed uU UV keys by auto
    from relax_succeeds [OF uk this, of prev] obtain dists' prev'
      where r: "relax u (filter (\<lambda>x. src x = u) edges) dists prev = Inr (dists', prev')" by blast
    have inv': "visit_inv V edges s dists' (remove1 u unvisited)"
      using visit_step_inv [OF inv closed u r] .
    from "1.IH" [OF False u r refl inv' closed] obtain d2 p2
      where "visit edges dists' prev' (remove1 u unvisited) = Inr (d2, p2)"
        and "visit_inv V edges s d2 []" by blast
    then show ?thesis using False u r by (simp del: visit.simps add: visit.simps [of edges dists prev unvisited])
  qed
qed


lemma init_vertices_props:
  "init_vertices vs (d, p, U) = (d', p', U') \<Longrightarrow>
     U' = U @ vs \<and> fst ` set d' = fst ` set d \<union> set vs \<and>
     (distinct (map fst d) \<longrightarrow> distinct (map fst d')) \<and>
     (\<forall>v. dval d' v = (if v \<in> set vs then \<infinity> else dval d v))"
proof (induction vs arbitrary: d p U)
  case Nil
  then show ?case by simp
next
  case (Cons a vs)
  from Cons.prems have "init_vertices vs (AList.update a \<infinity> d, AList.update a None p, U @ [a]) = (d', p', U')"
    by simp
  from Cons.IH [OF this] show ?case
    by (auto simp: dom_update distinct_update dval_update)
qed

lemma init_inv:
  assumes "init_vertices V ([], [], []) = (d, p, U)" and "s \<in> set V"
  shows "U = V \<and> visit_inv V E s (AList.update s 0 d) V"
proof -
  from init_vertices_props [OF assms(1)] have U: "U = V" and keys: "fst ` set d = set V"
    and dis: "distinct (map fst d)" and inf: "\<And>v. dval d v = \<infinity>"
    by (auto simp: dval_def)
  let ?d = "AList.update s 0 d"
  have val: "dval ?d v = (if v = s then 0 else \<infinity>)" for v by (simp add: dval_update inf)
  have "distinct (map fst ?d)" using dis by (simp add: distinct_update)
  moreover have "fst ` set ?d = set V" using keys assms(2) by (auto simp: dom_update)
  moreover have "dval ?d s = 0" by (simp add: val)
  moreover have "hops E s v n" if "dval ?d v = enat n" for v n
  proof -
    from that val [of v] have "v = s" "n = 0" by (auto simp: zero_enat_def split: if_splits)
    then show ?thesis by (simp add: hops_self)
  qed
  ultimately show ?thesis unfolding visit_inv_def using U by auto
qed

lemma path_dval_upper:
  "is_path E p \<Longrightarrow> hd p \<in> set V \<Longrightarrow>
   \<forall>e\<in>set E. src e \<in> set V \<longrightarrow> dst e \<in> set V \<and> dval d (dst e) \<le> dval d (src e) + 1 \<Longrightarrow>
   i < length p \<Longrightarrow> p ! i \<in> set V \<and> dval d (p ! i) \<le> dval d (hd p) + enat i"
proof (induction E p arbitrary: i rule: is_path.induct)
  case (1 edges)
  then show ?case by simp
next
  case (2 edges v)
  then show ?case by (simp add: zero_enat_def [symmetric])
next
  case (3 edges u v p)
  show ?case
  proof (cases i)
    case 0
    with "3.prems" show ?thesis by (simp add: zero_enat_def [symmetric])
  next
    case (Suc j)
    from "3.prems"(1) obtain e where e: "e \<in> set edges" "src e = u" "dst e = v"
      and rest: "is_path edges (v # p)" by auto
    from "3.prems"(2,3) e have v: "v \<in> set V" and le: "dval d v \<le> dval d u + 1" by auto
    from Suc "3.prems"(4) have j: "j < length (v # p)" by simp
    from "3.IH" [OF rest _ "3.prems"(3) j] v
    have ih: "(v # p) ! j \<in> set V" "dval d ((v # p) ! j) \<le> dval d v + enat j" by simp_all
    have "dval d v + enat j \<le> dval d u + 1 + enat j" using le by (rule add_right_mono)
    also have "\<dots> = dval d u + enat (Suc j)"
      by (simp add: one_enat_def add.assoc)
    finally have "dval d v + enat j \<le> dval d u + enat (Suc j)" .
    with ih Suc show ?thesis by (auto intro: order_trans)
  qed
qed

lemma path_dval_lower:
  "is_path E p \<Longrightarrow> set p \<subseteq> set V \<Longrightarrow>
   \<forall>e\<in>set E. src e \<in> set V \<longrightarrow> dval d (dst e) \<le> dval d (src e) + 1 \<Longrightarrow>
   i < length p \<Longrightarrow> dval d (last p) \<le> dval d (p ! i) + enat (length p - 1 - i)"
proof (induction E p arbitrary: i rule: is_path.induct)
  case (1 edges)
  then show ?case by simp
next
  case (2 edges v)
  then show ?case by (simp add: zero_enat_def [symmetric])
next
  case (3 edges u v p)
  from "3.prems"(1) obtain e where e: "e \<in> set edges" "src e = u" "dst e = v"
    and rest: "is_path edges (v # p)" by auto
  from "3.prems"(2) have sub: "set (v # p) \<subseteq> set V" and u: "u \<in> set V" by auto
  show ?case
  proof (cases i)
    case 0
    from "3.IH" [OF rest sub "3.prems"(3), of 0]
    have "dval d (last (v # p)) \<le> dval d v + enat (length p)" by simp
    also have "\<dots> \<le> dval d u + 1 + enat (length p)"
      using "3.prems"(3) e u by (auto intro: add_right_mono)
    also have "\<dots> = dval d u + enat (Suc (length p))" by (simp add: one_enat_def add.assoc)
    finally show ?thesis using 0 by simp
  next
    case (Suc j)
    with "3.prems"(4) have j: "j < length (v # p)" by simp
    from "3.IH" [OF rest sub "3.prems"(3) j] Suc show ?thesis by simp
  qed
qed


lemma dijkstra_final:
  assumes src: "source \<in> set vertices"
    and closed: "\<forall>e\<in>set edges. src e \<in> set vertices \<longrightarrow> dst e \<in> set vertices"
  shows "\<exists>dists prev. dijkstra vertices edges source = Inr (dists, prev) \<and>
           visit_inv vertices edges source dists []"
proof -
  obtain d p U where i: "init_vertices vertices ([], [], []) = (d, p, U)"
    by (cases "init_vertices vertices ([], [], [])") auto
  from init_inv [OF i src, of edges] have U: "U = vertices"
    and inv: "visit_inv vertices edges source (AList.update source 0 d) vertices" by simp_all
  from visit_correct [OF inv closed, of p] show ?thesis
    using src i U by (simp add: dijkstra_def)
qed

lemma final_links:
  assumes "visit_inv V E s d []"
    and "\<forall>e\<in>set E. src e \<in> set V \<longrightarrow> dst e \<in> set V"
  shows "\<forall>e\<in>set E. src e \<in> set V \<longrightarrow> dst e \<in> set V \<and> dval d (dst e) \<le> dval d (src e) + 1"
  using assms unfolding visit_inv_def by simp

lemma final_upper:
  assumes inv: "visit_inv V E s d []"
    and closed: "\<forall>e\<in>set E. src e \<in> set V \<longrightarrow> dst e \<in> set V"
    and s: "s \<in> set V"
    and p: "is_path E p" "hd p = s" "i < length p"
  shows "p ! i \<in> set V \<and> dval d (p ! i) \<le> enat i"
proof -
  from inv have s0: "dval d s = 0" unfolding visit_inv_def by simp
  from path_dval_upper [OF p(1) _ final_links [OF inv closed] p(3)] p(2) s s0
  show ?thesis by simp
qed

lemma final_min_hops:
  assumes inv: "visit_inv V E s d []"
    and closed: "\<forall>e\<in>set E. src e \<in> set V \<longrightarrow> dst e \<in> set V"
    and s: "s \<in> set V"
  shows "dval d v = min_hops E s v"
proof (cases "\<exists>n. hops E s v n")
  case True
  let ?m = "LEAST n. hops E s v n"
  from True have hm: "hops E s v ?m" by (auto intro: LeastI)
  then obtain p where p: "is_path E p" "hd p = s" "last p = v" "length p = Suc ?m"
    unfolding hops_def by blast
  from p(1) have "p \<noteq> []" by (rule is_path_nonempty)
  with p(3,4) have "p ! ?m = v" by (simp add: last_conv_nth)
  with final_upper [OF inv closed s p(1,2), of ?m] p(4) have le: "dval d v \<le> enat ?m" by simp
  then obtain k where k: "dval d v = enat k" "k \<le> ?m" by (cases "dval d v") auto
  from inv k(1) have "hops E s v k" unfolding visit_inv_def by blast
  then have "?m \<le> k" by (rule Least_le)
  with k True show ?thesis by (simp add: min_hops_def)
next
  case False
  have "dval d v = \<infinity>"
  proof (cases "dval d v")
    case (enat n)
    with inv have "hops E s v n" unfolding visit_inv_def by blast
    with False show ?thesis by blast
  next
    case infinity
    then show ?thesis .
  qed
  with False show ?thesis by (simp add: min_hops_def)
qed

lemma final_shortest_path:
  assumes inv: "visit_inv V E s d []"
    and closed: "\<forall>e\<in>set E. src e \<in> set V \<longrightarrow> dst e \<in> set V"
    and s: "s \<in> set V"
    and p: "is_path E p" "hd p = s" "min_hops E s (last p) = enat (length p - 1)"
    and i: "i < length p"
  shows "dval d (p ! i) = enat i"
proof -
  have mem: "p ! j \<in> set V" if "j < length p" for j
    using final_upper [OF inv closed s p(1,2) that] by simp
  have sub: "set p \<subseteq> set V" using mem by (auto simp: in_set_conv_nth)
  have K: "\<forall>e\<in>set E. src e \<in> set V \<longrightarrow> dval d (dst e) \<le> dval d (src e) + 1"
    using final_links [OF inv closed] by simp
  from final_upper [OF inv closed s p(1,2) i] obtain k where k: "dval d (p ! i) = enat k" "k \<le> i"
    by (cases "dval d (p ! i)") auto
  have "dval d (last p) = enat (length p - 1)"
    using final_min_hops [OF inv closed s, of "last p"] p(3) by simp
  with path_dval_lower [OF p(1) sub K i] k(1)
  have "length p - 1 \<le> k + (length p - 1 - i)" by simp
  with i have "i \<le> k" by arith
  with k show ?thesis by simp
qed

section \<open>The compiler\<close>

lemma port_mod_del:
  "port_mod datapath out (m(''in_port'' := None)) = port_mod datapath out m"
  by (rule ext) (simp add: port_mod_def)

lemma compile_ports_eq:
  "compile_ports datapath out ps rule =
     (let qs = filter (\<lambda>p. p \<noteq> out \<and> p \<noteq> 65534) ps in
      if qs = [] then rule
      else rule\<lparr>rule_match := (rule_match rule)(''in_port'' := None),
                flow_mods := flow_mods rule @ map (port_mod datapath out (rule_match rule)) qs\<rparr>)"
proof (induction ps arbitrary: rule)
  case Nil
  then show ?case by simp
next
  case (Cons a ps)
  show ?case
  proof (cases "a \<noteq> out \<and> a \<noteq> 65534")
    case False
    then show ?thesis using Cons.IH [of rule] by auto
  next
    case True
    let ?m = "(rule_match rule)(''in_port'' \<mapsto> IntV a)"
    let ?r = "rule\<lparr>rule_match := ?m(''in_port'' := None),
                    flow_mods := flow_mods rule @ [port_mod datapath out (rule_match rule) a]\<rparr>"
    have step: "compile_ports datapath out (a # ps) rule = compile_ports datapath out ps ?r"
      using True by (simp add: Let_def port_mod_def)
    show ?thesis
      unfolding step Cons.IH [of ?r] using True by (simp add: Let_def port_mod_del)
  qed
qed

lemma compile_ports_fields:
  "uuid (compile_ports datapath out ps rule) = uuid rule"
  "ttp_dpid (compile_ports datapath out ps rule) = ttp_dpid rule"
  "ttp_port (compile_ports datapath out ps rule) = ttp_port rule"
  by (simp_all add: compile_ports_eq Let_def)

lemma compile_ports_match:
  "rule_match rule ''in_port'' = None \<Longrightarrow>
     rule_match (compile_ports datapath out ps rule) = rule_match rule"
  by (auto simp: compile_ports_eq Let_def fun_eq_iff)

lemma compile_ports_mods:
  "\<exists>new. flow_mods (compile_ports datapath out ps rule) = flow_mods rule @ new \<and>
         (\<forall>fm\<in>set new. compiled_mod fm)"
proof -
  let ?qs = "filter (\<lambda>p. p \<noteq> out \<and> p \<noteq> 65534) ps"
  let ?new = "map (port_mod datapath out (rule_match rule)) ?qs"
  have "flow_mods (compile_ports datapath out ps rule) = flow_mods rule @ ?new"
    by (simp add: compile_ports_eq Let_def)
  moreover have "\<forall>fm\<in>set ?new. compiled_mod fm"
    unfolding compiled_mod_def by auto
  ultimately show ?thesis by blast
qed

lemma compile_preds_props:
  "compile_preds topo preds ks rule = (r, rule') \<Longrightarrow>
     uuid rule' = uuid rule \<and> ttp_dpid rule' = ttp_dpid rule \<and> ttp_port rule' = ttp_port rule \<and>
     (rule_match rule ''in_port'' = None \<longrightarrow> rule_match rule' = rule_match rule) \<and>
     (\<exists>new. flow_mods rule' = flow_mods rule @ new \<and> (\<forall>fm\<in>set new. compiled_mod fm))"
proof (induction ks arbitrary: rule)
  case Nil
  then show ?case by simp
next
  case (Cons k ks)
  have step: "uuid rule' = uuid rule \<and> ttp_dpid rule' = ttp_dpid rule \<and> ttp_port rule' = ttp_port rule \<and>
     (rule_match rule ''in_port'' = None \<longrightarrow> rule_match rule' = rule_match rule) \<and>
     (\<exists>new. flow_mods rule' = flow_mods rule @ new \<and> (\<forall>fm\<in>set new. compiled_mod fm))"
    if run: "compile_preds topo preds ks (compile_ports datapath out ps rule) = (r, rule')"
    for datapath out ps
  proof -
    let ?r = "compile_ports datapath out ps rule"
    from Cons.IH [OF run] have ih: "uuid rule' = uuid ?r" "ttp_dpid rule' = ttp_dpid ?r"
      "ttp_port rule' = ttp_port ?r"
      "rule_match ?r ''in_port'' = None \<longrightarrow> rule_match rule' = rule_match ?r"
      and "\<exists>new. flow_mods rule' = flow_mods ?r @ new \<and> (\<forall>fm\<in>set new. compiled_mod fm)"
      by blast+
    then obtain n2 where n2: "flow_mods rule' = flow_mods ?r @ n2" "\<forall>fm\<in>set n2. compiled_mod fm"
      by blast
    from compile_ports_mods [of datapath out ps rule] obtain n1
      where n1: "flow_mods ?r = flow_mods rule @ n1" "\<forall>fm\<in>set n1. compiled_mod fm" by blast
    have "flow_mods rule' = flow_mods rule @ (n1 @ n2)" using n1 n2 by simp
    moreover have "\<forall>fm\<in>set (n1 @ n2). compiled_mod fm" using n1 n2 by auto
    ultimately have "\<exists>new. flow_mods rule' = flow_mods rule @ new \<and> (\<forall>fm\<in>set new. compiled_mod fm)"
      by blast
    with ih show ?thesis by (simp add: compile_ports_fields compile_ports_match)
  qed
  from Cons.prems show ?case
    by (auto split: option.splits list.splits dest!: step)
qed

lemma relax_prev_keys:
  "relax u ns d p = Inr (d', p') \<Longrightarrow> map fst p = map fst d \<Longrightarrow> map fst p' = map fst d'"
proof (induction ns arbitrary: d p)
  case Nil
  then show ?case by simp
next
  case (Cons e ns)
  from relax_Cons_D [OF Cons.prems(1)] obtain du dv
    where du: "map_of d u = Some du" and dv: "map_of d (dst e) = Some dv" by blast
  note step = relax_Cons [OF du dv, of ns p]
  have mem: "dst e \<in> fst ` set d" using dv by (rule map_of_Some_key)
  then have memp: "dst e \<in> fst ` set p"
    using Cons.prems(2) by (metis list.set_map)
  show ?case
  proof (cases "du + 1 < dv")
    case True
    with Cons.prems step have r: "relax u ns (AList.update (dst e) (du + 1) d)
        (AList.update (dst e) (Some (u, port e)) p) = Inr (d', p')" by simp
    have "map fst (AList.update (dst e) (Some (u, port e)) p) =
        map fst (AList.update (dst e) (du + 1) d)"
      using keys_update_mem [OF mem] keys_update_mem [OF memp] Cons.prems(2) by simp
    from Cons.IH [OF r this] show ?thesis .
  next
    case False
    with Cons.prems step have "relax u ns d p = Inr (d', p')" by simp
    from Cons.IH [OF this Cons.prems(2)] show ?thesis .
  qed
qed

lemma visit_keys:
  "visit E d p U = Inr (d', p') \<Longrightarrow> map fst p = map fst d \<Longrightarrow>
     map fst p' = map fst d' \<and> map fst d' = map fst d"
proof (induction E d p U rule: visit.induct)
  case (1 edges dists prev unvisited)
  show ?case
  proof (cases "unvisited = []")
    case True
    with "1.prems" show ?thesis by simp
  next
    case False
    let ?av = "filter (\<lambda>(k, v). k \<in> set unvisited) dists"
    from False "1.prems"(1) obtain u where u: "min_key ?av = Inr u"
      by (cases "min_key ?av") (simp_all add: visit.simps [of edges dists prev unvisited])
    from False "1.prems"(1) u obtain d1 p1
      where r: "relax u (filter (\<lambda>x. src x = u) edges) dists prev = Inr (d1, p1)"
      by (cases "relax u (filter (\<lambda>x. src x = u) edges) dists prev")
         (auto simp: visit.simps [of edges dists prev unvisited])
    from False "1.prems"(1) u r have v: "visit edges d1 p1 (remove1 u unvisited) = Inr (d', p')"
      by (simp add: visit.simps [of edges dists prev unvisited])
    have k1: "map fst p1 = map fst d1" using relax_prev_keys [OF r "1.prems"(2)] .
    have k2: "map fst d1 = map fst dists" using relax_keys [OF r] .
    from "1.IH" [OF False u r refl v k1] k2 show ?thesis by simp
  qed
qed

lemma init_vertices_keys:
  "init_vertices vs (d, p, U) = (d', p', U') \<Longrightarrow> map fst p = map fst d \<Longrightarrow>
     map fst p' = map fst d'"
proof (induction vs arbitrary: d p U)
  case Nil
  then show ?case by simp
next
  case (Cons a vs)
  from Cons.prems(1) have r: "init_vertices vs
      (AList.update a \<infinity> d, AList.update a None p, U @ [a]) = (d', p', U')" by simp
  have "map fst (AList.update a None p) = map fst (AList.update a \<infinity> d)"
    using Cons.prems(2) by (simp add: update_keys)
  from Cons.IH [OF r this] show ?case .
qed

lemma dijkstra_prev_keys:
  assumes "dijkstra V E s = Inr (d', p')"
  shows "fst ` set p' = set V"
proof -
  from assms have s: "s \<in> set V" by (auto simp: dijkstra_def split: if_splits)
  obtain d p U where i: "init_vertices V ([], [], []) = (d, p, U)"
    by (cases "init_vertices V ([], [], [])") auto
  from assms s i have v: "visit E (AList.update s 0 d) p U = Inr (d', p')"
    by (simp add: dijkstra_def)
  from init_vertices_props [OF i] have keys: "fst ` set d = set V" by simp
  from init_vertices_keys [OF i] have "map fst p = map fst d" by simp
  with keys s have "map fst p = map fst (AList.update s 0 d)" by (simp add: keys_update_mem)
  from visit_keys [OF v this] have "map fst p' = map fst (AList.update s 0 d)" by simp
  then have "set (map fst p') = set (map fst (AList.update s 0 d))" by simp
  with keys s show ?thesis by (auto simp: dom_update)
qed

lemma get_switch_nonempty:
  "k \<in> switch_ids topo \<Longrightarrow> get_switch topo (Some k) \<noteq> []"
  by (auto simp: switch_ids_def get_switch_def filter_empty_conv)

lemma compile_preds_succeeds:
  "\<forall>k\<in>set ks. k \<in> fst ` set preds \<and> k \<in> switch_ids topo \<Longrightarrow>
   ttp_dpid rule \<in> switch_ids topo \<Longrightarrow>
   \<exists>rule'. compile_preds topo preds ks rule = (Inr (), rule')"
proof (induction ks arbitrary: rule)
  case Nil
  then show ?case by simp
next
  case (Cons k ks)
  from Cons.prems(1) have k: "k \<in> fst ` set preds" "k \<in> switch_ids topo"
    and rest: "\<forall>k\<in>set ks. k \<in> fst ` set preds \<and> k \<in> switch_ids topo" by simp_all
  from k(1) obtain pv where pv: "map_of preds k = Some pv"
    by (cases "map_of preds k") (auto simp: map_of_eq_None_iff)
  from get_switch_nonempty [OF k(2)] obtain sw1 r1 where g1: "get_switch topo (Some k) = sw1 # r1"
    by (cases "get_switch topo (Some k)") auto
  from get_switch_nonempty [OF Cons.prems(2)] obtain sw2 r2
    where g2: "get_switch topo (Some (ttp_dpid rule)) = sw2 # r2"
    by (cases "get_switch topo (Some (ttp_dpid rule))") auto
  have t: "ttp_dpid (compile_ports datapath out ps rule) \<in> switch_ids topo" for datapath out ps
    using Cons.prems(2) by (simp add: compile_ports_fields)
  show ?case
  proof (cases pv)
    case None
    with pv g2 Cons.IH [OF rest t] show ?thesis by simp
  next
    case (Some a)
    obtain w q where "a = (w, q)" by (cases a)
    with Some pv g1 Cons.IH [OF rest t] show ?thesis by simp
  qed
qed

lemma spanning_tree_succeeds:
  assumes "ttp \<in> switch_ids topo" and "links_closed topo"
  shows "\<exists>dists preds. compute_spanning_tree topo ttp = Inr (dists, preds) \<and>
           fst ` set preds = switch_ids topo"
proof -
  let ?sws = "map (\<lambda>sw. dp_id (dp sw)) (get_switch topo None)"
  let ?lks = "map (\<lambda>l. \<lparr>src = dpid (link_src l), dst = dpid (link_dst l),
                           port = port_no (link_dst l)\<rparr>) (get_link topo)"
  have ids: "set ?sws = switch_ids topo" by (simp add: get_switch_def switch_ids_def)
  have s: "ttp \<in> set ?sws" using assms(1) ids by simp
  have c: "\<forall>e\<in>set ?lks. src e \<in> set ?sws \<longrightarrow> dst e \<in> set ?sws"
    using assms(2) unfolding ids by (auto simp: links_closed_def get_link_def)
  from dijkstra_final [OF s c] obtain dists preds
    where run: "dijkstra ?sws ?lks ttp = Inr (dists, preds)" by blast
  from dijkstra_prev_keys [OF run] ids have "fst ` set preds = switch_ids topo" by simp
  with run show ?thesis by (simp add: compute_spanning_tree_def Let_def)
qed

lemma compile_rule_succeeds:
  assumes "ttp_dpid rule \<in> switch_ids topo" and "links_closed topo"
  shows "\<exists>rule'. compile_rule topo rule = (Inr (), rule')"
proof -
  from spanning_tree_succeeds [OF assms] obtain dists preds
    where st: "compute_spanning_tree topo (ttp_dpid rule) = Inr (dists, preds)"
      and keys: "fst ` set preds = switch_ids topo" by blast
  have "\<forall>k\<in>set (map fst preds). k \<in> fst ` set preds \<and> k \<in> switch_ids topo"
    using keys by auto
  from compile_preds_succeeds [OF this assms(1)] st show ?thesis
    by (simp add: compile_rule_def)
qed

lemma compile_rule_invalid_target:
  assumes "ttp_dpid rule \<notin> switch_ids topo"
  shows "compile_rule topo rule = (Inl ValueError, rule)"
  using assms
  by (simp add: compile_rule_def compute_spanning_tree_def Let_def dijkstra_def
      get_switch_def switch_ids_def)

lemma compile_rule_props:
  assumes "compile_rule topo rule = (r, rule')"
  shows "uuid rule' = uuid rule \<and> ttp_dpid rule' = ttp_dpid rule \<and> ttp_port rule' = ttp_port rule \<and>
     (rule_match rule ''in_port'' = None \<longrightarrow> rule_match rule' = rule_match rule) \<and>
     (\<exists>new. flow_mods rule' = flow_mods rule @ new \<and> (\<forall>fm\<in>set new. compiled_mod fm))"
proof (cases "compute_spanning_tree topo (ttp_dpid rule)")
  case (Inl e)
  with assms have "rule' = rule" by (simp add: compile_rule_def)
  then show ?thesis by simp
next
  case (Inr dp)
  obtain dists preds where "dp = (dists, preds)" by (cases dp)
  with Inr assms have "compile_preds topo preds (map fst preds) rule = (r, rule')"
    by (simp add: compile_rule_def)
  from compile_preds_props [OF this] show ?thesis .
qed

lemma compile_rule_error_unchanged:
  assumes "compile_rule topo rule = (Inl e, rule')"
  shows "rule' = rule"
proof (cases "compute_spanning_tree topo (ttp_dpid rule)")
  case (Inl e')
  with assms show ?thesis by (simp add: compile_rule_def)
next
  case (Inr res)
  obtain dists preds where dp: "res = (dists, preds)" by (cases res)
  let ?sws = "map (\<lambda>sw. dp_id (dp sw)) (get_switch topo None)"
  have ids: "set ?sws = switch_ids topo" by (simp add: get_switch_def switch_ids_def)
  from Inr dp obtain lks where run: "dijkstra ?sws lks (ttp_dpid rule) = Inr (dists, preds)"
    by (auto simp: compute_spanning_tree_def Let_def)
  then have t: "ttp_dpid rule \<in> switch_ids topo"
    using ids by (auto simp: dijkstra_def split: if_splits)
  from dijkstra_prev_keys [OF run] ids have "fst ` set preds = switch_ids topo" by simp
  then have "\<forall>k\<in>set (map fst preds). k \<in> fst ` set preds \<and> k \<in> switch_ids topo" by auto
  from compile_preds_succeeds [OF this t] obtain r2
    where "compile_preds topo preds (map fst preds) rule = (Inr (), r2)" by blast
  with Inr dp assms show ?thesis by (simp add: compile_rule_def)
qed

lemma compiled_mod_fields:
  "compiled_mod fm \<Longrightarrow> command fm = OFPFC_ADD \<and> priority fm = OFP_RULE_PRIORITY \<and>
     (\<exists>p out. mod_match fm ''in_port'' = Some (IntV p) \<and> actions fm = [OFPActionOutput out] \<and>
        p \<noteq> out \<and> p \<noteq> 65534)"
  by (auto simp: compiled_mod_def port_mod_def OFP_RULE_PRIORITY_def)

lemma add_rule_Inr:
  assumes "add_rule topo rule st = (Inr (), st1)"
  shows "\<exists>rule'. compile_rule topo rule = (Inr (), rule') \<and>
     st1 = st\<lparr>sent := sent st @ map FlowMod (flow_mods rule'),
              rules := AList.update (uuid rule') rule' (rules st)\<rparr>"
proof (cases "compile_rule topo rule")
  case (Pair r rule')
  with assms show ?thesis by (cases r) (auto simp: add_rule_def)
qed

lemma remove_rule_stored:
  assumes "map_of (rules st) u = Some rule"
  shows "remove_rule (Some u) st =
     (Inr (), st\<lparr>sent := sent st @ map (\<lambda>fm. FlowMod (delete_mod fm)) (flow_mods rule),
                 rules := AList.delete u (rules st)\<rparr>)"
  using assms by (simp add: remove_rule_def remove_one_def remove_reverse_path_def)

section \<open>The examples, evaluated\<close>

lemma ex_line_tree:
  "compute_spanning_tree ex_line 1 = Inr ([(1, 0), (2, 1)], [(1, None), (2, Some (1, 1))])"
  by code_simp

lemma ex_apart_tree:
  "compute_spanning_tree ex_apart 1 = Inr ([(1, 0), (2, \<infinity>)], [(1, None), (2, None)])"
  by code_simp

lemma ex_alone_tree:
  "compute_spanning_tree ex_alone 1 = Inr ([(1, 0)], [(1, None)])"
  by code_simp

lemma ex_dangling_tree: "compute_spanning_tree ex_dangling 1 = Inl KeyError"
  by code_simp

lemma ex_intent_target: "ttp_dpid ex_intent = 1" "ttp_port ex_intent = 1"
  by (simp_all add: ex_intent_def)

lemma ex_line_compile:
  "compile_rule ex_line ex_intent =
     (Inr (), ex_intent\<lparr>flow_mods :=
        [port_mod ex_dp1 1 (rule_match ex_intent) 2, port_mod ex_dp2 1 (rule_match ex_intent) 2]\<rparr>)"
  unfolding compile_rule_def ex_intent_target ex_line_tree
  by (simp add: compile_ports_eq ex_intent_target)
     (simp add: ex_line_def ex_intent_def get_switch_def ex_dp1_def ex_dp2_def Let_def port_mod_def fun_eq_iff)

lemma ex_apart_compile:
  "compile_rule ex_apart ex_intent =
     (Inr (), ex_intent\<lparr>flow_mods :=
        [port_mod ex_dp1 1 (rule_match ex_intent) 2, port_mod ex_dp1 1 (rule_match ex_intent) 2]\<rparr>)"
  unfolding compile_rule_def ex_intent_target ex_apart_tree
  by (simp add: compile_ports_eq ex_intent_target)
     (simp add: ex_apart_def ex_intent_def get_switch_def ex_dp1_def ex_dp2_def Let_def port_mod_def fun_eq_iff)

lemma ex_alone_compile:
  "compile_rule ex_alone ex_intent =
     (Inr (), ex_intent\<lparr>flow_mods := [port_mod ex_dp1 1 (rule_match ex_intent) 2]\<rparr>)"
  unfolding compile_rule_def ex_intent_target ex_alone_tree
  by (simp add: compile_ports_eq ex_intent_target)
     (simp add: ex_alone_def ex_intent_def get_switch_def ex_dp1_def ex_dp2_def Let_def port_mod_def fun_eq_iff)

lemma ex_first_octets:
  "int_base16 (first_field (eth_dst ex_multicast)) = Inr 1"
  "int_base16 (first_field (eth_dst ex_unicast)) = Inr 0"
  "int_base16 (first_field (eth_dst ex_lldp)) = Inr 1"
  by (simp_all add: ex_multicast_def ex_unicast_def ex_lldp_def int_base16_def first_field_def
      hex_digit_def)

section \<open>Replaying the messages on the tables\<close>

lemma replay_append: "replay (a @ b) T = replay b (replay a T)"
  by (simp add: replay_def)

lemma replay_Nil: "replay [] T = T"
  by (simp add: replay_def)

lemma replay_Cons: "replay (m # ms) T = replay ms (apply_msg m T)"
  by (simp add: replay_def)

lemma replay_adds:
  "\<forall>fm\<in>set mods. command fm = OFPFC_ADD \<Longrightarrow>
     \<exists>X. replay (map FlowMod mods) T = filter (\<lambda>e. fst e \<notin> mod_key ` set mods) T @ X \<and>
         (\<forall>e\<in>set X. fst e \<in> mod_key ` set mods)"
proof (induction mods arbitrary: T)
  case Nil
  then show ?case by (simp add: replay_Nil)
next
  case (Cons fm mods)
  let ?T = "filter (\<lambda>e. fst e \<noteq> mod_key fm) T @ [(mod_key fm, actions fm)]"
  from Cons.prems have c: "command fm = OFPFC_ADD" and rest: "\<forall>fm\<in>set mods. command fm = OFPFC_ADD"
    by simp_all
  from Cons.IH [OF rest, of ?T] obtain X
    where X: "replay (map FlowMod mods) ?T = filter (\<lambda>e. fst e \<notin> mod_key ` set mods) ?T @ X"
      and XK: "\<forall>e\<in>set X. fst e \<in> mod_key ` set mods" by blast
  let ?Y = "filter (\<lambda>e. fst e \<notin> mod_key ` set mods) [(mod_key fm, actions fm)] @ X"
  have "replay (map FlowMod (fm # mods)) T = replay (map FlowMod mods) ?T"
    using c by (simp add: replay_Cons)
  also have "\<dots> = filter (\<lambda>e. fst e \<notin> mod_key ` set (fm # mods)) T @ ?Y"
    unfolding X by (simp add: conj_commute)
  finally have "replay (map FlowMod (fm # mods)) T =
      filter (\<lambda>e. fst e \<notin> mod_key ` set (fm # mods)) T @ ?Y" .
  moreover have "\<forall>e\<in>set ?Y. fst e \<in> mod_key ` set (fm # mods)" using XK by auto
  ultimately show ?case by blast
qed

lemma replay_deletes:
  "replay (map (\<lambda>fm. FlowMod (delete_mod fm)) mods) T =
     filter (\<lambda>e. fst e \<notin> (\<lambda>fm. mod_key (delete_mod fm)) ` set mods) T"
proof (induction mods arbitrary: T)
  case Nil
  then show ?case by (simp add: replay_Nil)
next
  case (Cons fm mods)
  have c: "command (delete_mod fm) = OFPFC_DELETE_STRICT" by (simp add: delete_mod_def)
  show ?case
    by (simp add: replay_Cons c Cons.IH conj_commute)
qed

lemma delete_mod_key:
  "priority fm = OFP_RULE_PRIORITY \<Longrightarrow> mod_key (delete_mod fm) = mod_key fm"
  by (simp add: mod_key_def delete_mod_def)

lemma delete_keys:
  assumes "\<forall>fm\<in>set mods. priority fm = OFP_RULE_PRIORITY"
  shows "(\<lambda>fm. mod_key (delete_mod fm)) ` set mods = mod_key ` set mods"
  using assms by (auto simp: delete_mod_key image_iff)

lemma replay_install_delete:
  assumes adds: "\<forall>fm\<in>set mods. command fm = OFPFC_ADD \<and> priority fm = OFP_RULE_PRIORITY"
    and free: "\<forall>fm\<in>set mods. \<forall>e\<in>set T. fst e \<noteq> mod_key fm"
  shows "replay (map FlowMod mods @ map (\<lambda>fm. FlowMod (delete_mod fm)) mods) T = T"
proof -
  from adds have a: "\<forall>fm\<in>set mods. command fm = OFPFC_ADD"
    and p: "\<forall>fm\<in>set mods. priority fm = OFP_RULE_PRIORITY" by simp_all
  from replay_adds [OF a, of T] obtain X
    where X: "replay (map FlowMod mods) T = filter (\<lambda>e. fst e \<notin> mod_key ` set mods) T @ X"
      and XK: "\<forall>e\<in>set X. fst e \<in> mod_key ` set mods" by blast
  have keep: "filter (\<lambda>e. fst e \<notin> mod_key ` set mods) T = T"
    using free by (auto simp: filter_id_conv)
  have drop: "filter (\<lambda>e. fst e \<notin> mod_key ` set mods) X = []"
    using XK by (auto simp: filter_empty_conv)
  show ?thesis
    unfolding replay_append X replay_deletes delete_keys [OF p]
    by (simp add: keep drop)
qed

lemma replay_adds_keep:
  assumes "\<forall>fm\<in>set mods. command fm = OFPFC_ADD"
    and "e \<in> set T" and "fst e \<notin> mod_key ` set mods"
  shows "e \<in> set (replay (map FlowMod mods) T)"
proof -
  from replay_adds [OF assms(1), of T] obtain X
    where "replay (map FlowMod mods) T = filter (\<lambda>e. fst e \<notin> mod_key ` set mods) T @ X" by blast
  with assms(2,3) show ?thesis by simp
qed

lemma replay_deletes_keep:
  assumes "\<forall>fm\<in>set mods. priority fm = OFP_RULE_PRIORITY"
    and "e \<in> set T" and "fst e \<notin> mod_key ` set mods"
  shows "e \<in> set (replay (map (\<lambda>fm. FlowMod (delete_mod fm)) mods) T)"
  unfolding replay_deletes delete_keys [OF assms(1)] using assms(2,3) by simp

lemma ex_line_compile_any:
  assumes "ttp_dpid r = 1" and "ttp_port r = 1"
  shows "compile_rule ex_line r =
     (Inr (), r\<lparr>rule_match := (rule_match r)(''in_port'' := None),
                flow_mods := flow_mods r @
                  [port_mod ex_dp1 1 (rule_match r) 2, port_mod ex_dp2 1 (rule_match r) 2]\<rparr>)"
  unfolding compile_rule_def assms ex_line_tree
  by (simp add: compile_ports_eq assms)
     (simp add: assms ex_line_def get_switch_def ex_dp1_def ex_dp2_def Let_def port_mod_def
        fun_eq_iff)

lemma ex_states:
  "add_rule ex_line ex_twin ex_state =
     (Inr (), \<lparr>mac_to_port = Map.empty,
               rules = [(''b'', ex_twin\<lparr>flow_mods :=
                 [port_mod ex_dp1 1 (rule_match ex_intent) 2,
                  port_mod ex_dp2 1 (rule_match ex_intent) 2]\<rparr>)],
               sent = map FlowMod (flow_mods ex_compiled)\<rparr>)"
  "ex_s0 = \<lparr>mac_to_port = Map.empty,
               rules = [(''b'', ex_twin\<lparr>flow_mods :=
                 [port_mod ex_dp1 1 (rule_match ex_intent) 2,
                  port_mod ex_dp2 1 (rule_match ex_intent) 2]\<rparr>)],
               sent = map FlowMod (flow_mods ex_compiled)\<rparr>"
proof -
  have t: "ttp_dpid ex_twin = 1" "ttp_port ex_twin = 1" by (simp_all add: ex_twin_def)
  show a: "add_rule ex_line ex_twin ex_state =
     (Inr (), \<lparr>mac_to_port = Map.empty,
               rules = [(''b'', ex_twin\<lparr>flow_mods :=
                 [port_mod ex_dp1 1 (rule_match ex_intent) 2,
                  port_mod ex_dp2 1 (rule_match ex_intent) 2]\<rparr>)],
               sent = map FlowMod (flow_mods ex_compiled)\<rparr>)"
    by (simp add: add_rule_def ex_line_compile_any [OF t])
       (simp add: ex_twin_def ex_intent_def ex_state_def ex_compiled_def fun_eq_iff)
  then show "ex_s0 = \<lparr>mac_to_port = Map.empty,
               rules = [(''b'', ex_twin\<lparr>flow_mods :=
                 [port_mod ex_dp1 1 (rule_match ex_intent) 2,
                  port_mod ex_dp2 1 (rule_match ex_intent) 2]\<rparr>)],
               sent = map FlowMod (flow_mods ex_compiled)\<rparr>"
    by (simp add: ex_s0_def)
qed

lemma ex_s1_run:
  "add_rule ex_line ex_intent ex_s0 =
     (Inr (), ex_s0\<lparr>sent := sent ex_s0 @ map FlowMod (flow_mods ex_compiled),
                     rules := AList.update ''a'' ex_compiled (rules ex_s0)\<rparr>)"
  by (simp add: add_rule_def ex_line_compile ex_compiled_def) (simp add: ex_intent_def)

lemma ex_s2_run:
  "remove_rule (Some ''a'') ex_s1 =
     (Inr (), ex_s1\<lparr>sent := sent ex_s1 @ map (\<lambda>fm. FlowMod (delete_mod fm)) (flow_mods ex_compiled),
                     rules := AList.delete ''a'' (rules ex_s1)\<rparr>)"
proof -
  have "map_of (rules ex_s1) ''a'' = Some ex_compiled"
    by (simp add: ex_s1_def ex_s1_run update_conv')
  from remove_rule_stored [OF this] show ?thesis .
qed

lemma ex_keys:
  "mod_key (port_mod ex_dp1 1 m 2) \<noteq> mod_key (port_mod ex_dp2 1 m 2)"
  "mod_key (port_mod ex_dp2 1 m 2) \<noteq> mod_key (port_mod ex_dp1 1 m 2)"
  by (simp_all add: mod_key_def port_mod_def ex_dp1_def ex_dp2_def)

lemma ex_compiled_mods:
  "flow_mods ex_compiled =
     [port_mod ex_dp1 1 (rule_match ex_intent) 2, port_mod ex_dp2 1 (rule_match ex_intent) 2]"
  by (simp add: ex_compiled_def)

lemma ex_port_mod_fields:
  "command (port_mod d out m p) = OFPFC_ADD"
  "priority (port_mod d out m p) = OFP_RULE_PRIORITY"
  "actions (port_mod d out m p) = [OFPActionOutput out]"
  by (simp_all add: port_mod_def OFP_RULE_PRIORITY_def)

lemma delete_mod_command: "command (delete_mod fm) = OFPFC_DELETE_STRICT"
  by (simp add: delete_mod_def)

lemma port_mod_delete_key: "mod_key (delete_mod (port_mod d out m p)) = mod_key (port_mod d out m p)"
  by (simp add: delete_mod_key ex_port_mod_fields)

lemma ex_tables:
  "replay (sent ex_s0) [] =
     [(mod_key (port_mod ex_dp1 1 (rule_match ex_intent) 2), [OFPActionOutput 1]),
      (mod_key (port_mod ex_dp2 1 (rule_match ex_intent) 2), [OFPActionOutput 1])]"
  "replay (sent ex_s2) [] = []"
proof -
  show "replay (sent ex_s0) [] =
     [(mod_key (port_mod ex_dp1 1 (rule_match ex_intent) 2), [OFPActionOutput 1]),
      (mod_key (port_mod ex_dp2 1 (rule_match ex_intent) 2), [OFPActionOutput 1])]"
    by (simp add: ex_states(2) ex_compiled_mods replay_Cons replay_Nil ex_port_mod_fields ex_keys)
  have s1: "sent ex_s1 = sent ex_s0 @ map FlowMod (flow_mods ex_compiled)"
    by (simp add: ex_s1_def ex_s1_run)
  have "sent ex_s2 = sent ex_s1 @ map (\<lambda>fm. FlowMod (delete_mod fm)) (flow_mods ex_compiled)"
    by (simp add: ex_s2_def ex_s2_run)
  with s1 have s2: "sent ex_s2 = sent ex_s0 @ map FlowMod (flow_mods ex_compiled) @
      map (\<lambda>fm. FlowMod (delete_mod fm)) (flow_mods ex_compiled)"
    by simp
  show "replay (sent ex_s2) [] = []"
    unfolding s2
    by (simp add: ex_states(2) ex_compiled_mods replay_Cons replay_Nil ex_port_mod_fields ex_keys
        delete_mod_command port_mod_delete_key)
qed

section \<open>The claims\<close>

text \<open>
  C1 (amended). For every switch list and link list in which every link that leaves a
  listed switch ends at a listed switch, and every target in the switch list,
  \<open>dijkstra\<close> returns a distance map over exactly the listed switches, with
  distance 0 for the target and, for every switch \<open>v\<close>, the least number of links
  on a directed path from the target to \<open>v\<close> (the unreachable value when there is
  no path). Along every shortest path from the target outward the distances are
  0, 1, 2, ... in this order, so they never decrease.
\<close>

theorem dijkstra_min_hops:
  assumes "source \<in> set vertices"
    and "\<forall>e\<in>set edges. src e \<in> set vertices \<longrightarrow> dst e \<in> set vertices"
  shows "\<exists>dists prev. dijkstra vertices edges source = Inr (dists, prev) \<and>
           fst ` set dists = set vertices \<and>
           map_of dists source = Some 0 \<and>
           (\<forall>v\<in>set vertices. map_of dists v = Some (min_hops edges source v)) \<and>
           (\<forall>p. is_path edges p \<and> hd p = source \<and>
                 min_hops edges source (last p) = enat (length p - 1) \<longrightarrow>
                 (\<forall>i<length p. map_of dists (p ! i) = Some (enat i)))"
proof -
  from dijkstra_final [OF assms] obtain dists prev
    where run: "dijkstra vertices edges source = Inr (dists, prev)"
      and inv: "visit_inv vertices edges source dists []" by blast
  from inv have keys: "fst ` set dists = set vertices" and s0: "dval dists source = 0"
    unfolding visit_inv_def by simp_all
  have look: "map_of dists v = Some (dval dists v)" if "v \<in> set vertices" for v
    using that keys by (simp add: map_of_dval)
  have a: "map_of dists source = Some 0" using look [OF assms(1)] s0 by simp
  have b: "\<forall>v\<in>set vertices. map_of dists v = Some (min_hops edges source v)"
    using look final_min_hops [OF inv assms(2,1)] by simp
  have c: "map_of dists (p ! i) = Some (enat i)"
    if "is_path edges p" "hd p = source" "min_hops edges source (last p) = enat (length p - 1)"
      "i < length p" for p i
  proof -
    have "p ! i \<in> set vertices" using final_upper [OF inv assms(2,1) that(1,2,4)] by simp
    from look [OF this] final_shortest_path [OF inv assms(2,1) that] show ?thesis by simp
  qed
  from run keys a b c show ?thesis by blast
qed

theorem dijkstra_min_hops_witness:
  "\<exists>dists prev.
     dijkstra [1, 2, 3, 4]
       [\<lparr>src = 1, dst = 2, port = 1\<rparr>, \<lparr>src = 2, dst = 3, port = 1\<rparr>,
        \<lparr>src = 3, dst = 4, port = 1\<rparr>, \<lparr>src = 1, dst = 4, port = 2\<rparr>] 1 = Inr (dists, prev) \<and>
     dists = [(1, 0), (2, 1), (3, 2), (4, 1)] \<and>
     min_hops
       [\<lparr>src = 1, dst = 2, port = 1\<rparr>, \<lparr>src = 2, dst = 3, port = 1\<rparr>,
        \<lparr>src = 3, dst = 4, port = 1\<rparr>, \<lparr>src = 1, dst = 4, port = 2\<rparr>] 1 3 = 2 \<and>
     map_of dists ([1, 2, 3] ! 2) = Some (enat 2)"
proof -
  let ?E = "[\<lparr>src = 1, dst = 2, port = 1\<rparr>, \<lparr>src = 2, dst = 3, port = 1\<rparr>,
        \<lparr>src = 3, dst = 4, port = 1\<rparr>, \<lparr>src = 1, dst = 4, port = 2\<rparr>]"
  have run: "dijkstra [1, 2, 3, 4] ?E 1 =
      Inr ([(1, 0), (2, 1), (3, 2), (4, 1)],
           [(1, None), (2, Some (1, 1)), (3, Some (2, 1)), (4, Some (1, 2))])"
    by code_simp
  have h1: "(1::int) \<in> set [1, 2, 3, 4]" by simp
  have h2: "\<forall>e\<in>set ?E. src e \<in> set [1, 2, 3, 4] \<longrightarrow> dst e \<in> set [1, 2, 3, 4]" by simp
  from dijkstra_min_hops [OF h1 h2] obtain dists prev
    where r: "dijkstra [1, 2, 3, 4] ?E 1 = Inr (dists, prev)"
      and m: "\<forall>v\<in>set [1, 2, 3, 4]. map_of dists v = Some (min_hops ?E 1 v)"
      and sp: "\<forall>p. is_path ?E p \<and> hd p = 1 \<and> min_hops ?E 1 (last p) = enat (length p - 1) \<longrightarrow>
                 (\<forall>i<length p. map_of dists (p ! i) = Some (enat i))"
    by blast
  from r run have d: "dists = [(1, 0), (2, 1), (3, 2), (4, 1)]" by simp
  from m d have mh: "min_hops ?E 1 3 = 2" by simp
  have "is_path ?E [1, 2, 3] \<and> hd [1, 2, 3] = (1::int) \<and>
      min_hops ?E 1 (last [1, 2, 3]) = enat (length [1, 2, 3 :: int] - 1)"
    using mh by (simp add: numeral_eq_enat)
  with sp have every: "\<And>i. i < length [1, 2, 3 :: int] \<Longrightarrow>
      map_of dists ([1, 2, 3] ! i) = Some (enat i)" by blast
  have "map_of dists ([1, 2, 3] ! 2) = Some (enat 2)" by (rule every) simp
  with r d mh show ?thesis by blast
qed

text \<open>
  The claim as written fails twice. On the switches 1, 2, 3, 4 with the links 1-2, 2-3,
  3-4 and 1-4, the list 1, 2, 3, 4 is a simple path from the target 1 and the distances
  along it are 0, 1, 2, 1. And a link from a listed switch to a switch that is not
  listed makes \<open>dist[v['dst']]\<close> raise KeyError: no distance map is returned.
\<close>

theorem dijkstra_simple_path_counterexample:
  "dijkstra [1, 2, 3, 4]
     [\<lparr>src = 1, dst = 2, port = 1\<rparr>, \<lparr>src = 2, dst = 3, port = 1\<rparr>,
      \<lparr>src = 3, dst = 4, port = 1\<rparr>, \<lparr>src = 1, dst = 4, port = 2\<rparr>] 1 =
     Inr ([(1, 0), (2, 1), (3, 2), (4, 1)],
          [(1, None), (2, Some (1, 1)), (3, Some (2, 1)), (4, Some (1, 2))]) \<and>
   is_path
     [\<lparr>src = 1, dst = 2, port = 1\<rparr>, \<lparr>src = 2, dst = 3, port = 1\<rparr>,
      \<lparr>src = 3, dst = 4, port = 1\<rparr>, \<lparr>src = 1, dst = 4, port = 2\<rparr>] [1, 2, 3, 4] \<and>
   distinct [1, 2, 3, 4 :: int] \<and>
   map (dval [(1, 0), (2, 1), (3, 2), (4, 1)]) [1, 2, 3, 4] = [0, 1, 2, 1] \<and>
   \<not> sorted (map (dval [(1, 0), (2, 1), (3, 2), (4, 1)]) [1, 2, 3, 4]) \<and>
   dijkstra [1, 2] [\<lparr>src = 1, dst = 3, port = 1\<rparr>] 1 = Inl KeyError"
proof -
  have a: "dijkstra [1, 2, 3, 4]
     [\<lparr>src = 1, dst = 2, port = 1\<rparr>, \<lparr>src = 2, dst = 3, port = 1\<rparr>,
      \<lparr>src = 3, dst = 4, port = 1\<rparr>, \<lparr>src = 1, dst = 4, port = 2\<rparr>] 1 =
     Inr ([(1, 0), (2, 1), (3, 2), (4, 1)],
          [(1, None), (2, Some (1, 1)), (3, Some (2, 1)), (4, Some (1, 2))])"
    by code_simp
  have b: "dijkstra [1, 2] [\<lparr>src = 1, dst = 3, port = 1\<rparr>] 1 = Inl KeyError"
    by code_simp
  have c: "map (dval [(1, 0), (2, 1), (3, 2), (4, 1)]) [1, 2, 3, 4] = [0, 1, 2, 1]"
    by (simp add: dval_def)
  have d: "\<not> sorted (map (dval [(1, 0), (2, 1), (3, 2), (4, 1)]) [1, 2, 3, 4])"
    by (simp add: dval_def numeral_eq_enat one_enat_def)
  from a b c d show ?thesis by simp
qed

text \<open>
  C2 (the code departs from the claim). The claim excludes from the compilation every
  switch that is unreachable and is not the target. On the two switches of
  \<open>ex_apart\<close>, which no link joins, with switch 1 as the target, switch 2 is
  unreachable and its predecessor is \<open>None\<close>, as the target's is; the loop takes
  the branch of the target for it and emits the rule of switch 1 a second time, where
  switch 1 alone (\<open>ex_alone\<close>) gives that rule once.
\<close>

theorem unreachable_switch_compiled:
  "compute_spanning_tree ex_apart 1 = Inr ([(1, 0), (2, \<infinity>)], [(1, None), (2, None)]) \<and>
   map (\<lambda>fm. (dp_id (mod_datapath fm), mod_match fm ''in_port'', actions fm))
     (flow_mods (snd (compile_rule ex_apart ex_intent))) =
     [(1, Some (IntV 2), [OFPActionOutput 1]), (1, Some (IntV 2), [OFPActionOutput 1])] \<and>
   map (\<lambda>fm. (dp_id (mod_datapath fm), mod_match fm ''in_port'', actions fm))
     (flow_mods (snd (compile_rule ex_alone ex_intent))) =
     [(1, Some (IntV 2), [OFPActionOutput 1])]"
  by (simp add: ex_apart_tree ex_apart_compile ex_alone_compile port_mod_def ex_dp1_def)

text \<open>
  C3. For every intent whose target switch is not among the switches of the snapshot,
  \<open>add_rule\<close> fails with the ValueError of \<open>dijkstra\<close> (the InvalidTarget of
  the specification): the compilation stops before any rule is produced (the intent
  is as it was), nothing is sent to a switch and the intent is not stored (the state
  after the call is the state before it).
\<close>

theorem add_rule_invalid_target:
  assumes "ttp_dpid rule \<notin> switch_ids topo"
  shows "compile_rule topo rule = (Inl ValueError, rule) \<and>
         add_rule topo rule st = (Inl ValueError, st)"
  using compile_rule_invalid_target [OF assms] by (simp add: add_rule_def)

theorem add_rule_invalid_target_witness:
  "compile_rule ex_alone (ex_intent\<lparr>ttp_dpid := 2\<rparr>) = (Inl ValueError, ex_intent\<lparr>ttp_dpid := 2\<rparr>) \<and>
   add_rule ex_alone (ex_intent\<lparr>ttp_dpid := 2\<rparr>) ex_state = (Inl ValueError, ex_state)"
proof -
  have "ttp_dpid (ex_intent\<lparr>ttp_dpid := 2\<rparr>) \<notin> switch_ids ex_alone"
    by (simp add: switch_ids_def ex_alone_def ex_dp1_def)
  from add_rule_invalid_target [OF this] show ?thesis .
qed

text \<open>
  C4 (amended). For every intent stored by \<open>add_rule\<close>, the messages of the call are
  the installs of the intent's flow mods (those it held, then the newly compiled ones,
  each an add with the rule priority), and \<open>remove_rule\<close> on its uuid then succeeds
  and sends, for each of these flow mods in the same order, exactly one strict delete
  with the same datapath and the same match; the delete carries the rule priority,
  which is the priority of every compiled flow mod (and of every flow mod of an intent
  whose flow mods all have the rule priority, as those of a fresh or compiled intent
  have). The entry of the uuid is erased, the other entries and the MAC table are as
  before the add. The forwarding tables, replayed from the messages sent, are after
  the removal what they were before the add whenever the intent held only installs of
  the rule priority and the tables before the add had no entry with the switch, match
  and priority of a flow mod that the add installs.
\<close>

theorem add_then_remove:
  assumes "add_rule topo rule st = (Inr (), st1)"
  shows "\<exists>new st2.
     sent st1 = sent st @ map FlowMod (flow_mods rule @ new) \<and>
     (\<forall>fm\<in>set new. command fm = OFPFC_ADD \<and> priority fm = OFP_RULE_PRIORITY) \<and>
     remove_rule (Some (uuid rule)) st1 = (Inr (), st2) \<and>
     sent st2 = sent st1 @ map (\<lambda>fm. FlowMod (delete_mod fm)) (flow_mods rule @ new) \<and>
     (\<forall>fm\<in>set (flow_mods rule @ new).
        command (delete_mod fm) = OFPFC_DELETE_STRICT \<and>
        mod_datapath (delete_mod fm) = mod_datapath fm \<and>
        mod_match (delete_mod fm) = mod_match fm) \<and>
     (\<forall>fm\<in>set new. priority (delete_mod fm) = priority fm) \<and>
     ((\<forall>fm\<in>set (flow_mods rule). priority fm = OFP_RULE_PRIORITY) \<longrightarrow>
      (\<forall>fm\<in>set (flow_mods rule @ new). priority (delete_mod fm) = priority fm)) \<and>
     map_of (rules st2) (uuid rule) = None \<and>
     (\<forall>k. k \<noteq> uuid rule \<longrightarrow> map_of (rules st2) k = map_of (rules st) k) \<and>
     mac_to_port st2 = mac_to_port st \<and>
     (\<forall>T. (\<forall>fm\<in>set (flow_mods rule). command fm = OFPFC_ADD \<and> priority fm = OFP_RULE_PRIORITY) \<and>
          (\<forall>fm\<in>set (flow_mods rule @ new). \<forall>e\<in>set (replay (sent st) T). fst e \<noteq> mod_key fm) \<longrightarrow>
          replay (sent st2) T = replay (sent st) T)"
proof -
  from add_rule_Inr [OF assms] obtain rule'
    where c: "compile_rule topo rule = (Inr (), rule')"
      and st1: "st1 = st\<lparr>sent := sent st @ map FlowMod (flow_mods rule'),
              rules := AList.update (uuid rule') rule' (rules st)\<rparr>" by blast
  from compile_rule_props [OF c] obtain new
    where u: "uuid rule' = uuid rule"
      and fm: "flow_mods rule' = flow_mods rule @ new"
      and cm: "\<forall>fm\<in>set new. compiled_mod fm" by blast
  let ?st2 = "st1\<lparr>sent := sent st1 @ map (\<lambda>fm. FlowMod (delete_mod fm)) (flow_mods rule'),
                 rules := AList.delete (uuid rule) (rules st1)\<rparr>"
  have stored: "map_of (rules st1) (uuid rule) = Some rule'"
    using st1 u by (simp add: update_conv')
  have a: "sent st1 = sent st @ map FlowMod (flow_mods rule @ new)" using st1 fm by simp
  have b: "\<forall>fm\<in>set new. command fm = OFPFC_ADD \<and> priority fm = OFP_RULE_PRIORITY"
    using cm compiled_mod_fields by blast
  have c1: "remove_rule (Some (uuid rule)) st1 = (Inr (), ?st2)"
    using remove_rule_stored [OF stored] .
  have d: "sent ?st2 = sent st1 @ map (\<lambda>fm. FlowMod (delete_mod fm)) (flow_mods rule @ new)"
    using fm by simp
  have e: "\<forall>fm\<in>set (flow_mods rule @ new).
        command (delete_mod fm) = OFPFC_DELETE_STRICT \<and>
        mod_datapath (delete_mod fm) = mod_datapath fm \<and>
        mod_match (delete_mod fm) = mod_match fm"
    by (simp add: delete_mod_def)
  have f: "\<forall>fm\<in>set new. priority (delete_mod fm) = priority fm"
    using b by (simp add: delete_mod_def)
  have g: "(\<forall>fm\<in>set (flow_mods rule). priority fm = OFP_RULE_PRIORITY) \<longrightarrow>
      (\<forall>fm\<in>set (flow_mods rule @ new). priority (delete_mod fm) = priority fm)"
    using b by (auto simp: delete_mod_def)
  have h: "map_of (rules ?st2) (uuid rule) = None"
    by (simp add: delete_conv')
  have i: "\<forall>k. k \<noteq> uuid rule \<longrightarrow> map_of (rules ?st2) k = map_of (rules st) k"
    using st1 u by (simp add: delete_conv' update_conv')
  have j: "mac_to_port ?st2 = mac_to_port st" using st1 by simp
  have k: "replay (sent ?st2) T = replay (sent st) T"
    if held: "\<forall>fm\<in>set (flow_mods rule). command fm = OFPFC_ADD \<and> priority fm = OFP_RULE_PRIORITY"
      and free: "\<forall>fm\<in>set (flow_mods rule @ new). \<forall>e\<in>set (replay (sent st) T). fst e \<noteq> mod_key fm"
    for T
  proof -
    let ?mods = "flow_mods rule @ new"
    have all: "\<forall>fm\<in>set ?mods. command fm = OFPFC_ADD \<and> priority fm = OFP_RULE_PRIORITY"
      using held b by auto
    have "sent ?st2 = sent st @ (map FlowMod ?mods @ map (\<lambda>fm. FlowMod (delete_mod fm)) ?mods)"
      using a d by simp
    then have "replay (sent ?st2) T =
        replay (map FlowMod ?mods @ map (\<lambda>fm. FlowMod (delete_mod fm)) ?mods) (replay (sent st) T)"
      by (simp only: replay_append)
    also have "\<dots> = replay (sent st) T" using replay_install_delete [OF all free] .
    finally show ?thesis .
  qed
  from a b c1 d e f g h i j k show ?thesis by blast
qed

theorem add_then_remove_witness:
  "\<exists>st1 st2. add_rule ex_line ex_intent ex_state = (Inr (), st1) \<and>
     remove_rule (Some ''a'') st1 = (Inr (), st2) \<and>
     sent st1 = [FlowMod (port_mod ex_dp1 1 (rule_match ex_intent) 2),
                 FlowMod (port_mod ex_dp2 1 (rule_match ex_intent) 2)] \<and>
     sent st2 = sent st1 @
                [FlowMod (delete_mod (port_mod ex_dp1 1 (rule_match ex_intent) 2)),
                 FlowMod (delete_mod (port_mod ex_dp2 1 (rule_match ex_intent) 2))] \<and>
     map_of (rules st2) ''a'' = None \<and>
     replay (sent st2) ex_table = ex_table"
proof -
  let ?st1 = "ex_state\<lparr>sent := sent ex_state @ map FlowMod
        [port_mod ex_dp1 1 (rule_match ex_intent) 2, port_mod ex_dp2 1 (rule_match ex_intent) 2],
      rules := AList.update ''a'' (ex_intent\<lparr>flow_mods :=
        [port_mod ex_dp1 1 (rule_match ex_intent) 2,
         port_mod ex_dp2 1 (rule_match ex_intent) 2]\<rparr>) (rules ex_state)\<rparr>"
  have add: "add_rule ex_line ex_intent ex_state = (Inr (), ?st1)"
    by (simp add: add_rule_def ex_line_compile) (simp add: ex_intent_def)
  from add_then_remove [OF add] obtain new st2
    where a: "sent ?st1 = sent ex_state @ map FlowMod (flow_mods ex_intent @ new)"
      and r: "remove_rule (Some (uuid ex_intent)) ?st1 = (Inr (), st2)"
      and d: "sent st2 = sent ?st1 @ map (\<lambda>fm. FlowMod (delete_mod fm)) (flow_mods ex_intent @ new)"
      and h: "map_of (rules st2) (uuid ex_intent) = None"
      and t: "\<forall>T. (\<forall>fm\<in>set (flow_mods ex_intent).
                    command fm = OFPFC_ADD \<and> priority fm = OFP_RULE_PRIORITY) \<and>
          (\<forall>fm\<in>set (flow_mods ex_intent @ new).
             \<forall>e\<in>set (replay (sent ex_state) T). fst e \<noteq> mod_key fm) \<longrightarrow>
          replay (sent st2) T = replay (sent ex_state) T" by blast
  have u: "uuid ex_intent = ''a''" and f: "flow_mods ex_intent = []" and s: "sent ex_state = []"
    by (simp_all add: ex_intent_def ex_state_def)
  from a have new: "new = [port_mod ex_dp1 1 (rule_match ex_intent) 2,
      port_mod ex_dp2 1 (rule_match ex_intent) 2]"
    unfolding f s by (auto simp: Cons_eq_map_conv)
  have free: "\<forall>fm\<in>set (flow_mods ex_intent @ new).
      \<forall>e\<in>set (replay (sent ex_state) ex_table). fst e \<noteq> mod_key fm"
    unfolding f s new by (simp add: replay_Nil ex_table_def mod_key_def port_mod_def)
  from t free f have "replay (sent st2) ex_table = replay (sent ex_state) ex_table" by simp
  then have tab: "replay (sent st2) ex_table = ex_table" by (simp add: s replay_Nil)
  from add r d h tab show ?thesis unfolding u f s new by simp
qed

text \<open>
  The claim as written fails. With the twin intent stored first, the tables hold its two
  entries before \<open>ex_intent\<close> is added; the installs of \<open>ex_intent\<close> have the same
  switches, matches and priority, and its removal deletes them: the tables are empty
  afterwards and not as they were before the add.
\<close>

theorem add_then_remove_table_counterexample:
  "add_rule ex_line ex_twin ex_state = (Inr (), ex_s0) \<and>
   add_rule ex_line ex_intent ex_s0 = (Inr (), ex_s1) \<and>
   remove_rule (Some ''a'') ex_s1 = (Inr (), ex_s2) \<and>
   uuid ex_intent = ''a'' \<and>
   replay (sent ex_s0) [] =
     [(mod_key (port_mod ex_dp1 1 (rule_match ex_intent) 2), [OFPActionOutput 1]),
      (mod_key (port_mod ex_dp2 1 (rule_match ex_intent) 2), [OFPActionOutput 1])] \<and>
   replay (sent ex_s2) [] = []"
proof -
  have a: "add_rule ex_line ex_twin ex_state = (Inr (), ex_s0)"
    by (simp add: ex_states)
  have b: "add_rule ex_line ex_intent ex_s0 = (Inr (), ex_s1)"
    by (simp add: ex_s1_def ex_s1_run)
  have c: "remove_rule (Some ''a'') ex_s1 = (Inr (), ex_s2)"
    by (simp add: ex_s2_def ex_s2_run)
  have d: "uuid ex_intent = ''a''" by (simp add: ex_intent_def)
  from a b c d ex_tables show ?thesis by simp
qed

text \<open>
  C5 (amended). For every decoded frame that is not dropped (ethertype neither
  link-layer discovery nor IPv6, destination address with the low bit of its first
  octet clear), the handler records the ingress port under the source address in the
  table of the switch. For a frame that is dropped (link-layer discovery, IPv6, or a
  multicast or broadcast destination) the tables are left as they were: the handler
  returns before the line that learns.
\<close>

theorem packet_in_learns:
  "(ethertype eth \<noteq> ETH_TYPE_LLDP \<and> ethertype eth \<noteq> ETH_TYPE_IPV6 \<and>
    int_base16 (first_field (eth_dst eth)) = Inr n \<and> n AND 1 = 0 \<longrightarrow>
      (\<exists>table. mac_to_port (snd (packet_in_handler msg (Some eth) st)) (dp_id (msg_datapath msg)) =
                  Some table \<and>
               table (eth_src eth) = Some (in_port msg))) \<and>
   (ethertype eth = ETH_TYPE_LLDP \<or> ethertype eth = ETH_TYPE_IPV6 \<or>
    (int_base16 (first_field (eth_dst eth)) = Inr n \<and> n AND 1 \<noteq> 0) \<longrightarrow>
      mac_to_port (snd (packet_in_handler msg (Some eth) st)) = mac_to_port st)"
  by (auto simp: packet_in_handler_def Let_def add_flow_def)

theorem packet_in_learns_witness:
  "(\<exists>table. mac_to_port (snd (packet_in_handler ex_msg (Some ex_unicast) ex_state)) 1 = Some table \<and>
            table ''00:00:00:00:00:0a'' = Some 3) \<and>
   mac_to_port (snd (packet_in_handler ex_msg (Some ex_multicast) ex_state)) = mac_to_port ex_state"
proof -
  have u: "ethertype ex_unicast \<noteq> ETH_TYPE_LLDP \<and> ethertype ex_unicast \<noteq> ETH_TYPE_IPV6 \<and>
      int_base16 (first_field (eth_dst ex_unicast)) = Inr 0 \<and> (0::int) AND 1 = 0"
    by (simp add: ex_first_octets) (simp add: ex_unicast_def ETH_TYPE_LLDP_def ETH_TYPE_IPV6_def)
  have m: "int_base16 (first_field (eth_dst ex_multicast)) = Inr 1 \<and> (1::int) AND 1 \<noteq> 0"
    by (simp add: ex_first_octets)
  have f: "dp_id (msg_datapath ex_msg) = 1" "in_port ex_msg = 3"
    "eth_src ex_unicast = ''00:00:00:00:00:0a''"
    by (simp_all add: ex_msg_def ex_dp1_def ex_unicast_def)
  from packet_in_learns [of ex_unicast 0 ex_msg ex_state] u
  have a: "\<exists>table. mac_to_port (snd (packet_in_handler ex_msg (Some ex_unicast) ex_state)) 1 = Some table \<and>
            table ''00:00:00:00:00:0a'' = Some 3" unfolding f by blast
  from packet_in_learns [of ex_multicast 1 ex_msg ex_state] m
  have b: "mac_to_port (snd (packet_in_handler ex_msg (Some ex_multicast) ex_state)) = mac_to_port ex_state"
    by blast
  from a b show ?thesis by blast
qed

text \<open>
  The claim as written fails on each kind of dropped frame: after the handler has run
  on it in a fresh state, the switch has no table at all.
\<close>

theorem dropped_frame_not_learned_counterexample:
  "ethertype ex_lldp = ETH_TYPE_LLDP \<and>
   packet_in_handler ex_msg (Some ex_lldp) ex_state = (Inr (), ex_state) \<and>
   mac_to_port (snd (packet_in_handler ex_msg (Some ex_lldp) ex_state)) (dp_id (msg_datapath ex_msg)) = None \<and>
   ethertype ex_ipv6 = ETH_TYPE_IPV6 \<and>
   mac_to_port (snd (packet_in_handler ex_msg (Some ex_ipv6) ex_state)) (dp_id (msg_datapath ex_msg)) = None \<and>
   int_base16 (first_field (eth_dst ex_multicast)) = Inr 1 \<and>
   mac_to_port (snd (packet_in_handler ex_msg (Some ex_multicast) ex_state)) (dp_id (msg_datapath ex_msg)) = None"
  by (simp add: ex_first_octets packet_in_handler_def)
     (simp add: ex_lldp_def ex_ipv6_def ex_multicast_def ETH_TYPE_LLDP_def ETH_TYPE_IPV6_def ex_state_def)

text \<open>
  C6. For every uuid that is not a key of the registry, \<open>remove_rule\<close> fails with
  KeyError (the NotFound of the specification) before anything is sent or erased, and
  \<open>update_rule\<close>, which removes first, fails in the same way without compiling or
  adding: in both cases the state after the call is the state before it.
\<close>

theorem remove_unknown_uuid:
  assumes "map_of (rules st) u = None"
  shows "remove_rule (Some u) st = (Inl KeyError, st) \<and>
         update_rule topo (Some u) rule st = (Inl KeyError, st)"
  using assms by (simp add: update_rule_def remove_rule_def remove_one_def remove_reverse_path_def)

theorem remove_unknown_uuid_witness:
  "\<exists>st1. add_rule ex_line ex_intent ex_state = (Inr (), st1) \<and>
     remove_rule (Some ''b'') st1 = (Inl KeyError, st1) \<and>
     update_rule ex_line (Some ''b'') ex_intent st1 = (Inl KeyError, st1)"
proof -
  from compile_rule_succeeds [of ex_intent ex_line] obtain rule'
    where c: "compile_rule ex_line ex_intent = (Inr (), rule')"
    by (auto simp: switch_ids_def links_closed_def ex_line_def ex_intent_def ex_dp1_def ex_dp2_def)
  from compile_rule_props [OF c] have u: "uuid rule' = ''a''" by (simp add: ex_intent_def)
  let ?st1 = "ex_state\<lparr>sent := sent ex_state @ map FlowMod (flow_mods rule'),
              rules := AList.update (uuid rule') rule' (rules ex_state)\<rparr>"
  have add: "add_rule ex_line ex_intent ex_state = (Inr (), ?st1)"
    using c by (simp add: add_rule_def)
  have "map_of (rules ?st1) ''b'' = None" using u by (simp add: update_conv' ex_state_def)
  from remove_unknown_uuid [OF this, of ex_line ex_intent] add show ?thesis by blast
qed

text \<open>
  C7. For every snapshot and intent, every flow mod that \<open>compile_rule\<close> appends
  has an ingress port in its match that differs from the port of its output action
  and is not the reserved port 65534.
\<close>

theorem compile_in_port_differs:
  assumes "compile_rule topo rule = (r, rule')"
  shows "\<exists>new. flow_mods rule' = flow_mods rule @ new \<and>
           (\<forall>fm\<in>set new. \<exists>p out.
              mod_match fm ''in_port'' = Some (IntV p) \<and> actions fm = [OFPActionOutput out] \<and>
              p \<noteq> out \<and> p \<noteq> 65534)"
proof -
  from compile_rule_props [OF assms] obtain new
    where "flow_mods rule' = flow_mods rule @ new" and "\<forall>fm\<in>set new. compiled_mod fm" by blast
  with compiled_mod_fields show ?thesis by blast
qed

theorem compile_in_port_differs_witness:
  "\<exists>new. compile_rule ex_line ex_intent = (Inr (), ex_intent\<lparr>flow_mods := new\<rparr>) \<and>
     map (\<lambda>fm. (dp_id (mod_datapath fm), mod_match fm ''in_port'', actions fm)) new =
       [(1, Some (IntV 2), [OFPActionOutput 1]), (2, Some (IntV 2), [OFPActionOutput 1])] \<and>
     list_all (\<lambda>fm. \<exists>p out. mod_match fm ''in_port'' = Some (IntV p) \<and>
        actions fm = [OFPActionOutput out] \<and> p \<noteq> out \<and> p \<noteq> 65534) new"
proof -
  let ?new = "[port_mod ex_dp1 1 (rule_match ex_intent) 2, port_mod ex_dp2 1 (rule_match ex_intent) 2]"
  from compile_in_port_differs [OF ex_line_compile] obtain new
    where n: "flow_mods (ex_intent\<lparr>flow_mods := ?new\<rparr>) = flow_mods ex_intent @ new"
      and p: "\<forall>fm\<in>set new. \<exists>p out.
              mod_match fm ''in_port'' = Some (IntV p) \<and> actions fm = [OFPActionOutput out] \<and>
              p \<noteq> out \<and> p \<noteq> 65534" by blast
  from n have new: "new = ?new" by (simp add: ex_intent_def)
  have m: "map (\<lambda>fm. (dp_id (mod_datapath fm), mod_match fm ''in_port'', actions fm)) ?new =
       [(1, Some (IntV 2), [OFPActionOutput 1]), (2, Some (IntV 2), [OFPActionOutput 1])]"
    by (simp add: port_mod_def ex_dp1_def ex_dp2_def)
  from p new have l: "list_all (\<lambda>fm. \<exists>p out. mod_match fm ''in_port'' = Some (IntV p) \<and>
        actions fm = [OFPActionOutput out] \<and> p \<noteq> out \<and> p \<noteq> 65534) ?new"
    by (simp add: list_all_iff)
  show ?thesis
  proof (rule exI [of _ ?new], intro conjI)
    show "compile_rule ex_line ex_intent = (Inr (), ex_intent\<lparr>flow_mods := ?new\<rparr>)"
      by (rule ex_line_compile)
    show "map (\<lambda>fm. (dp_id (mod_datapath fm), mod_match fm ''in_port'', actions fm)) ?new =
       [(1, Some (IntV 2), [OFPActionOutput 1]), (2, Some (IntV 2), [OFPActionOutput 1])]"
      by (rule m)
    show "list_all (\<lambda>fm. \<exists>p out. mod_match fm ''in_port'' = Some (IntV p) \<and>
        actions fm = [OFPActionOutput out] \<and> p \<noteq> out \<and> p \<noteq> 65534) ?new"
      by (rule l)
  qed
qed

text \<open>
  C8 (amended). \<open>compile_rule\<close> reads the snapshot and the intent and nothing else,
  and changes nothing but the intent: it returns no rule list, it appends the compiled
  flow mods to the intent's compiled rule set, after those the set held. The uuid,
  the target switch and the target port of the intent are unchanged, and so is its
  match whenever the match has no \<open>in_port\<close> entry of its own. When the compilation
  fails, the intent is unchanged altogether.
\<close>

theorem compile_rule_effect:
  assumes "compile_rule topo rule = (r, rule')"
  shows "uuid rule' = uuid rule \<and> ttp_dpid rule' = ttp_dpid rule \<and> ttp_port rule' = ttp_port rule \<and>
         (rule_match rule ''in_port'' = None \<longrightarrow> rule_match rule' = rule_match rule) \<and>
         (\<exists>new. flow_mods rule' = flow_mods rule @ new) \<and>
         (r \<noteq> Inr () \<longrightarrow> rule' = rule)"
proof -
  have "rule' = rule" if "r \<noteq> Inr ()"
  proof -
    from that obtain e where "r = Inl e" by (cases r) auto
    with assms show ?thesis by (auto dest: compile_rule_error_unchanged)
  qed
  with compile_rule_props [OF assms] show ?thesis by blast
qed

theorem compile_rule_effect_witness:
  "\<exists>rule'. compile_rule ex_line ex_intent = (Inr (), rule') \<and>
     uuid rule' = ''a'' \<and> ttp_dpid rule' = 1 \<and> ttp_port rule' = 1 \<and>
     rule_match rule' = rule_match ex_intent \<and>
     (\<exists>new. flow_mods rule' = flow_mods ex_intent @ new) \<and>
     compile_rule ex_dangling ex_intent = (Inl KeyError, ex_intent)"
proof -
  let ?r = "ex_intent\<lparr>flow_mods :=
        [port_mod ex_dp1 1 (rule_match ex_intent) 2, port_mod ex_dp2 1 (rule_match ex_intent) 2]\<rparr>"
  have m: "rule_match ex_intent ''in_port'' = None" by (simp add: ex_intent_def)
  have f: "uuid ex_intent = ''a''" "ttp_dpid ex_intent = 1" "ttp_port ex_intent = 1"
    by (simp_all add: ex_intent_def)
  from compile_rule_effect [OF ex_line_compile] m f
  have a: "uuid ?r = ''a'' \<and> ttp_dpid ?r = 1 \<and> ttp_port ?r = 1 \<and>
     rule_match ?r = rule_match ex_intent \<and> (\<exists>new. flow_mods ?r = flow_mods ex_intent @ new)"
    by metis
  obtain r2 where d: "compile_rule ex_dangling ex_intent = (Inl KeyError, r2)"
    by (simp add: compile_rule_def ex_intent_target ex_dangling_tree)
  from compile_rule_effect [OF d] have "r2 = ex_intent" by simp
  with a d ex_line_compile show ?thesis by blast
qed

text \<open>
  The claim as written fails: compiling the fresh intent on \<open>ex_line\<close> returns
  nothing and leaves two flow mods in the intent's rule set, which was empty.
\<close>

theorem compile_rule_mutates_counterexample:
  "flow_mods ex_intent = [] \<and>
   fst (compile_rule ex_line ex_intent) = Inr () \<and>
   length (flow_mods (snd (compile_rule ex_line ex_intent))) = 2 \<and>
   snd (compile_rule ex_line ex_intent) \<noteq> ex_intent"
proof -
  have "flow_mods (snd (compile_rule ex_line ex_intent)) \<noteq> flow_mods ex_intent"
    by (simp add: ex_line_compile) (simp add: ex_intent_def)
  then have "snd (compile_rule ex_line ex_intent) \<noteq> ex_intent" by auto
  then show ?thesis by (simp add: ex_line_compile) (simp add: ex_intent_def)
qed

text \<open>
  C9. For every packet-in whose decoded frame has the ethertype of link-layer discovery
  or of IPv6, or a destination address whose first octet has its low bit set, the
  handler returns without a single call of \<open>send_msg\<close>: the messages sent are those
  sent before, so no rule is installed (and the whole state is unchanged).
\<close>

theorem dropped_frame_sends_nothing:
  assumes "ethertype eth = ETH_TYPE_LLDP \<or> ethertype eth = ETH_TYPE_IPV6 \<or>
           (\<exists>n. int_base16 (first_field (eth_dst eth)) = Inr n \<and> n AND 1 \<noteq> 0)"
  shows "packet_in_handler msg (Some eth) st = (Inr (), st) \<and>
         sent (snd (packet_in_handler msg (Some eth) st)) = sent st"
  using assms by (auto simp: packet_in_handler_def)

theorem dropped_frame_sends_nothing_witness:
  "packet_in_handler ex_msg (Some ex_lldp) ex_state = (Inr (), ex_state) \<and>
   packet_in_handler ex_msg (Some ex_ipv6) ex_state = (Inr (), ex_state) \<and>
   packet_in_handler ex_msg (Some ex_multicast) ex_state = (Inr (), ex_state) \<and>
   sent (snd (packet_in_handler ex_msg (Some ex_multicast) ex_state)) = sent ex_state"
proof -
  have a: "ethertype ex_lldp = ETH_TYPE_LLDP" by (simp add: ex_lldp_def ETH_TYPE_LLDP_def)
  have b: "ethertype ex_ipv6 = ETH_TYPE_IPV6" by (simp add: ex_ipv6_def ETH_TYPE_IPV6_def)
  have c: "\<exists>n. int_base16 (first_field (eth_dst ex_multicast)) = Inr n \<and> n AND 1 \<noteq> 0"
    by (simp add: ex_first_octets)
  from dropped_frame_sends_nothing [of ex_lldp ex_msg ex_state] a
    dropped_frame_sends_nothing [of ex_ipv6 ex_msg ex_state] b
    dropped_frame_sends_nothing [of ex_multicast ex_msg ex_state] c
  show ?thesis by blast
qed

text \<open>
  C10 (amended). For every registry that holds an intent under the uuid of the intent
  that is added, whenever the added intent holds only installs of the rule priority (as
  a fresh or a compiled intent does), its target is in the snapshot and every link that
  leaves a listed switch ends at a listed switch, \<open>add_rule\<close> succeeds and
  overwrites the entry in place with the compiled intent. Every message of the call is
  an install: no delete is sent for a flow mod of the intent stored before. A flow mod
  of that intent which the added intent does not install itself (no flow mod of the
  compiled intent has its switch, match and priority) remains on the switches and is
  no longer tracked under the uuid: the stored entry does not hold it, the
  \<open>remove_rule\<close> that follows sends no delete of its key, and its entry is in the
  forwarding tables after the add and after that removal.
\<close>

theorem add_rule_overwrites:
  assumes "map_of (rules st) (uuid rule) = Some old"
    and "ttp_dpid rule \<in> switch_ids topo"
    and "links_closed topo"
    and "\<forall>fm\<in>set (flow_mods rule). command fm = OFPFC_ADD \<and> priority fm = OFP_RULE_PRIORITY"
  shows "\<exists>compiled new st1 st2.
     compile_rule topo rule = (Inr (), compiled) \<and>
     flow_mods compiled = flow_mods rule @ new \<and>
     (\<forall>fm\<in>set new. command fm = OFPFC_ADD) \<and>
     add_rule topo rule st = (Inr (), st1) \<and>
     st1 = st\<lparr>sent := sent st @ map FlowMod (flow_mods rule @ new),
              rules := AList.update (uuid rule) compiled (rules st)\<rparr> \<and>
     map_of (rules st1) (uuid rule) = Some compiled \<and>
     map fst (rules st1) = map fst (rules st) \<and>
     (\<forall>fm\<in>set (flow_mods compiled). command fm = OFPFC_ADD) \<and>
     remove_rule (Some (uuid rule)) st1 = (Inr (), st2) \<and>
     sent st2 = sent st1 @ map (\<lambda>fm. FlowMod (delete_mod fm)) (flow_mods compiled) \<and>
     (\<forall>fm\<in>set (flow_mods old). mod_key fm \<notin> mod_key ` set (flow_mods compiled) \<longrightarrow>
        fm \<notin> set (flow_mods compiled) \<and>
        (\<forall>d\<in>set (flow_mods compiled). mod_key (delete_mod d) \<noteq> mod_key fm) \<and>
        (\<forall>T e. e \<in> set (replay (sent st) T) \<and> fst e = mod_key fm \<longrightarrow>
           e \<in> set (replay (sent st1) T) \<and> e \<in> set (replay (sent st2) T)))"
proof -
  from compile_rule_succeeds [OF assms(2,3)] obtain compiled
    where c: "compile_rule topo rule = (Inr (), compiled)" by blast
  from compile_rule_props [OF c] obtain new
    where u: "uuid compiled = uuid rule"
      and fm: "flow_mods compiled = flow_mods rule @ new"
      and cm: "\<forall>fm\<in>set new. compiled_mod fm" by blast
  let ?mods = "flow_mods compiled"
  let ?st1 = "st\<lparr>sent := sent st @ map FlowMod (flow_mods rule @ new),
              rules := AList.update (uuid rule) compiled (rules st)\<rparr>"
  let ?st2 = "?st1\<lparr>sent := sent ?st1 @ map (\<lambda>fm. FlowMod (delete_mod fm)) ?mods,
                 rules := AList.delete (uuid rule) (rules ?st1)\<rparr>"
  have n: "\<forall>fm\<in>set new. command fm = OFPFC_ADD \<and> priority fm = OFP_RULE_PRIORITY"
    using cm compiled_mod_fields by blast
  then have a: "\<forall>fm\<in>set new. command fm = OFPFC_ADD" by simp
  have all: "\<forall>fm\<in>set ?mods. command fm = OFPFC_ADD \<and> priority fm = OFP_RULE_PRIORITY"
    using fm n assms(4) by auto
  then have adds: "\<forall>fm\<in>set ?mods. command fm = OFPFC_ADD"
    and prios: "\<forall>fm\<in>set ?mods. priority fm = OFP_RULE_PRIORITY" by simp_all
  have b: "add_rule topo rule st = (Inr (), ?st1)"
    using c u fm by (simp add: add_rule_def)
  have d: "map_of (rules ?st1) (uuid rule) = Some compiled"
    by (simp add: update_conv')
  have "uuid rule \<in> fst ` set (rules st)" using assms(1) by (rule map_of_Some_key)
  then have e: "map fst (rules ?st1) = map fst (rules st)"
    by (simp add: keys_update_mem)
  have r: "remove_rule (Some (uuid rule)) ?st1 = (Inr (), ?st2)"
    using remove_rule_stored [OF d] .
  have s2: "sent ?st2 = sent ?st1 @ map (\<lambda>fm. FlowMod (delete_mod fm)) ?mods" by simp
  have s1: "sent ?st1 = sent st @ map FlowMod ?mods" using fm by simp
  have o: "fm \<notin> set ?mods \<and>
        (\<forall>d\<in>set ?mods. mod_key (delete_mod d) \<noteq> mod_key fm) \<and>
        (\<forall>T e. e \<in> set (replay (sent st) T) \<and> fst e = mod_key fm \<longrightarrow>
           e \<in> set (replay (sent ?st1) T) \<and> e \<in> set (replay (sent ?st2) T))"
    if k: "mod_key fm \<notin> mod_key ` set ?mods" for fm
  proof -
    from k have o1: "fm \<notin> set ?mods" by auto
    have o2: "\<forall>d\<in>set ?mods. mod_key (delete_mod d) \<noteq> mod_key fm"
    proof
      fix d assume d: "d \<in> set ?mods"
      with prios have "mod_key (delete_mod d) = mod_key d" by (simp add: delete_mod_key)
      moreover from d k have "mod_key d \<noteq> mod_key fm" by (metis imageI)
      ultimately show "mod_key (delete_mod d) \<noteq> mod_key fm" by simp
    qed
    have o3: "e \<in> set (replay (sent ?st1) T) \<and> e \<in> set (replay (sent ?st2) T)"
      if e: "e \<in> set (replay (sent st) T)" "fst e = mod_key fm" for T e
    proof -
      from e(2) k have ek: "fst e \<notin> mod_key ` set ?mods" by simp
      have x: "e \<in> set (replay (map FlowMod ?mods) (replay (sent st) T))"
        using replay_adds_keep [OF adds e(1) ek] .
      then have y: "e \<in> set (replay (sent ?st1) T)"
        by (simp only: s1 replay_append)
      have "e \<in> set (replay (map (\<lambda>fm. FlowMod (delete_mod fm)) ?mods) (replay (sent ?st1) T))"
        using replay_deletes_keep [OF prios y ek] .
      then have "e \<in> set (replay (sent ?st2) T)"
        by (simp only: s2 replay_append)
      with y show ?thesis by simp
    qed
    from o1 o2 o3 show ?thesis by blast
  qed
  from c fm a b d e adds r s2 o show ?thesis by blast
qed

theorem add_rule_overwrites_witness:
  "map_of (rules ex_stored) ''a'' = Some ex_old \<and>
   (\<exists>st1 st2. add_rule ex_line ex_intent ex_stored = (Inr (), st1) \<and>
      rules st1 = [(''a'', ex_compiled)] \<and>
      sent st1 = map FlowMod (flow_mods ex_compiled) \<and>
      remove_rule (Some ''a'') st1 = (Inr (), st2) \<and>
      sent st2 = sent st1 @ map (\<lambda>fm. FlowMod (delete_mod fm)) (flow_mods ex_compiled) \<and>
      (mod_key (port_mod ex_dp2 2 [''dl_type'' \<mapsto> IntV 2054] 1), [OFPActionOutput 2])
        \<in> set (replay (sent st1) ex_old_table) \<and>
      (mod_key (port_mod ex_dp2 2 [''dl_type'' \<mapsto> IntV 2054] 1), [OFPActionOutput 2])
        \<in> set (replay (sent st2) ex_old_table))"
proof -
  let ?old = "port_mod ex_dp2 2 [''dl_type'' \<mapsto> IntV 2054] 1"
  let ?e = "(mod_key ?old, [OFPActionOutput 2])"
  have h1: "map_of (rules ex_stored) (uuid ex_intent) = Some ex_old"
    by (simp add: ex_stored_def ex_intent_def)
  have h2: "ttp_dpid ex_intent \<in> switch_ids ex_line"
    by (simp add: switch_ids_def ex_line_def ex_intent_def ex_dp1_def)
  have h3: "links_closed ex_line"
    by (simp add: links_closed_def switch_ids_def ex_line_def ex_dp1_def ex_dp2_def)
  have h4: "\<forall>fm\<in>set (flow_mods ex_intent).
      command fm = OFPFC_ADD \<and> priority fm = OFP_RULE_PRIORITY"
    by (simp add: ex_intent_def)
  from add_rule_overwrites [OF h1 h2 h3 h4] obtain compiled new st1 st2
    where c: "compile_rule ex_line ex_intent = (Inr (), compiled)"
      and a: "add_rule ex_line ex_intent ex_stored = (Inr (), st1)"
      and s1: "st1 = ex_stored\<lparr>sent := sent ex_stored @ map FlowMod (flow_mods ex_intent @ new),
              rules := AList.update (uuid ex_intent) compiled (rules ex_stored)\<rparr>"
      and f: "flow_mods compiled = flow_mods ex_intent @ new"
      and r: "remove_rule (Some (uuid ex_intent)) st1 = (Inr (), st2)"
      and s2: "sent st2 = sent st1 @ map (\<lambda>fm. FlowMod (delete_mod fm)) (flow_mods compiled)"
      and o: "\<forall>fm\<in>set (flow_mods ex_old). mod_key fm \<notin> mod_key ` set (flow_mods compiled) \<longrightarrow>
        fm \<notin> set (flow_mods compiled) \<and>
        (\<forall>d\<in>set (flow_mods compiled). mod_key (delete_mod d) \<noteq> mod_key fm) \<and>
        (\<forall>T e. e \<in> set (replay (sent ex_stored) T) \<and> fst e = mod_key fm \<longrightarrow>
           e \<in> set (replay (sent st1) T) \<and> e \<in> set (replay (sent st2) T))"
    by blast
  from c have cv: "compiled = ex_compiled" by (simp add: ex_line_compile ex_compiled_def)
  have u: "uuid ex_intent = ''a''" and fe: "flow_mods ex_intent = []"
    by (simp_all add: ex_intent_def)
  have rs: "rules st1 = [(''a'', ex_compiled)]" using s1 cv u by (simp add: ex_stored_def)
  have ss: "sent st1 = map FlowMod (flow_mods ex_compiled)"
    using s1 f cv by (simp add: ex_stored_def)
  have differ: "[''dl_type'' \<mapsto> IntV 2054, ''in_port'' \<mapsto> IntV 1] \<noteq>
      (rule_match ex_intent)(''in_port'' \<mapsto> IntV 2)"
  proof
    assume "[''dl_type'' \<mapsto> IntV 2054, ''in_port'' \<mapsto> IntV 1] =
      (rule_match ex_intent)(''in_port'' \<mapsto> IntV 2)"
    then have "[''dl_type'' \<mapsto> IntV 2054, ''in_port'' \<mapsto> IntV 1] ''in_port'' =
      ((rule_match ex_intent)(''in_port'' \<mapsto> IntV 2)) ''in_port''" by (rule arg_cong)
    then show False by simp
  qed
  have mem: "?old \<in> set (flow_mods ex_old)" by (simp add: ex_old_def)
  have key: "mod_key ?old \<notin> mod_key ` set (flow_mods compiled)"
    unfolding cv ex_compiled_mods using differ
    by (simp add: mod_key_def port_mod_def ex_dp1_def ex_dp2_def)
  have tab: "?e \<in> set (replay (sent ex_stored) ex_old_table)"
    by (simp add: ex_stored_def replay_Nil ex_old_table_def)
  from o mem key tab have "?e \<in> set (replay (sent st1) ex_old_table) \<and>
      ?e \<in> set (replay (sent st2) ex_old_table)" by (metis fst_conv)
  with h1 a rs ss r s2 show ?thesis unfolding u cv by blast
qed

text \<open>
  The claim as written fails. With the uuid already stored, \<open>add_rule\<close> does not
  succeed for a target that is not in the snapshot (ValueError), nor on a snapshot
  with a link to a switch that is not listed (KeyError); the stored intent stays. And
  when the intent that is added is the stored intent itself, the entry afterwards holds
  the flow mods of the intent stored before, twice, and the removal that follows
  deletes them: they are tracked as before.
\<close>

theorem add_rule_fails_counterexample:
  "map_of (rules ex_stored) ''a'' = Some ex_old \<and>
   uuid (ex_intent\<lparr>ttp_dpid := 3\<rparr>) = ''a'' \<and>
   add_rule ex_line (ex_intent\<lparr>ttp_dpid := 3\<rparr>) ex_stored = (Inl ValueError, ex_stored) \<and>
   uuid ex_intent = ''a'' \<and>
   add_rule ex_dangling ex_intent ex_stored = (Inl KeyError, ex_stored) \<and>
   map_of (rules ex_added) ''a'' = Some ex_compiled \<and>
   uuid ex_compiled = ''a'' \<and>
   flow_mods ex_compiled =
     [port_mod ex_dp1 1 (rule_match ex_intent) 2, port_mod ex_dp2 1 (rule_match ex_intent) 2] \<and>
   fst (add_rule ex_line ex_compiled ex_added) = Inr () \<and>
   map_of (rules (snd (add_rule ex_line ex_compiled ex_added))) ''a'' =
     Some (ex_compiled\<lparr>flow_mods := flow_mods ex_compiled @ flow_mods ex_compiled\<rparr>) \<and>
   sent (snd (remove_rule (Some ''a'') (snd (add_rule ex_line ex_compiled ex_added)))) =
     sent (snd (add_rule ex_line ex_compiled ex_added)) @
     map (\<lambda>fm. FlowMod (delete_mod fm)) (flow_mods ex_compiled @ flow_mods ex_compiled)"
proof -
  have "ttp_dpid (ex_intent\<lparr>ttp_dpid := 3\<rparr>) \<notin> switch_ids ex_line"
    by (simp add: switch_ids_def ex_line_def ex_dp1_def ex_dp2_def)
  from compile_rule_invalid_target [OF this]
  have a: "add_rule ex_line (ex_intent\<lparr>ttp_dpid := 3\<rparr>) ex_stored = (Inl ValueError, ex_stored)"
    by (simp add: add_rule_def)
  have b: "add_rule ex_dangling ex_intent ex_stored = (Inl KeyError, ex_stored)"
    by (simp add: add_rule_def compile_rule_def ex_intent_target ex_dangling_tree)
  let ?twice = "ex_compiled\<lparr>flow_mods := flow_mods ex_compiled @ flow_mods ex_compiled\<rparr>"
  have t: "ttp_dpid ex_compiled = 1" "ttp_port ex_compiled = 1"
    by (simp_all add: ex_compiled_def ex_intent_def)
  have c: "compile_rule ex_line ex_compiled = (Inr (), ?twice)"
    unfolding ex_line_compile_any [OF t]
    by (simp add: ex_compiled_def ex_intent_def fun_eq_iff)
  let ?S = "ex_added\<lparr>sent := sent ex_added @ map FlowMod (flow_mods ?twice),
      rules := AList.update ''a'' ?twice (rules ex_added)\<rparr>"
  have d: "add_rule ex_line ex_compiled ex_added = (Inr (), ?S)"
    using c by (simp add: add_rule_def) (simp add: ex_compiled_def ex_intent_def)
  have e: "map_of (rules ?S) ''a'' = Some ?twice" by (simp add: update_conv')
  have f: "sent (snd (remove_rule (Some ''a'') ?S)) =
      sent ?S @ map (\<lambda>fm. FlowMod (delete_mod fm)) (flow_mods ex_compiled @ flow_mods ex_compiled)"
    unfolding remove_rule_stored [OF e] by simp
  have g: "map_of (rules ex_added) ''a'' = Some ex_compiled" "uuid ex_compiled = ''a''"
    by (simp_all add: ex_added_def ex_compiled_def ex_intent_def)
  have h: "map_of (rules ex_stored) ''a'' = Some ex_old" "uuid (ex_intent\<lparr>ttp_dpid := 3\<rparr>) = ''a''"
    "uuid ex_intent = ''a''"
    by (simp_all add: ex_stored_def ex_intent_def)
  from a b g h ex_compiled_mods e f show ?thesis unfolding d by simp
qed

end
